theory Spec2Isabelle
  imports Main
begin

section \<open>FlowIDEConnectionWatcher: the model\<close>

text \<open>
  The watcher of \<^verbatim>\<open>pkg/nuclide-flow-rpc/lib/FlowIDEConnectionWatcher.js\<close> keeps one
  FlowIDEConnection alive. Its only asynchronous method, \<^verbatim>\<open>_makeIDEConnection\<close>, suspends
  at two places (the process promise and the throttling sleep), and the closure it hands
  to \<^verbatim>\<open>onWillDispose\<close> runs when the connection ends. The model is a state record with
  one handler per resumption point: an event of the environment resumes a suspended
  invocation, ends a connection, or calls \<^verbatim>\<open>start()\<close> or \<^verbatim>\<open>dispose()\<close>.

  Numbers are JavaScript numbers holding integral milliseconds and a small counter: \<open>int\<close>.
  Calls on the collaborators (process source, connection factory, callback, logger, sleep,
  kill, the two dispose methods) are appended to a trace, in program order.
  The callback, the factory and the logger are taken not to throw and not to call back
  into the watcher, and the process source to yield one value per request (a handle or
  an absence).
\<close>

subsection \<open>Constants\<close>

definition IDE_CONNECTION_MAX_WAIT_MS :: int where
  "IDE_CONNECTION_MAX_WAIT_MS = 20 * 60 * 1000"

definition IDE_CONNECTION_MIN_INTERVAL_MS :: int where
  "IDE_CONNECTION_MIN_INTERVAL_MS = 1000"

definition IDE_CONNECTION_HEALTHY_THRESHOLD_MS :: int where
  "IDE_CONNECTION_HEALTHY_THRESHOLD_MS = 10 * 1000"

definition MAX_UNHEALTHY_CONNECTIONS :: int where
  "MAX_UNHEALTHY_CONNECTIONS = 20"

subsection \<open>Data\<close>

text \<open>
  A process handle is an opaque identifier. A connection is named by its creation index
  (the default factory is \<^verbatim>\<open>new FlowIDEConnection(proc)\<close>, a fresh object per call), a
  subscription by the index of the listener it removes, an invocation of
  \<^verbatim>\<open>_makeIDEConnection\<close> by its index in the list of invocations.
\<close>

type_synonym proc = nat
type_synonym conn = nat
type_synonym sub = nat

text \<open>
  Where an invocation of \<^verbatim>\<open>_makeIDEConnection\<close> stands: suspended at
  \<^verbatim>\<open>await processPromise\<close> (with its locals \<^verbatim>\<open>endTimeMS\<close> and
  \<^verbatim>\<open>attemptStartTime\<close>), suspended at \<^verbatim>\<open>await this._sleep(...)\<close> (with
  \<^verbatim>\<open>endTimeMS\<close>), or returned, which resolves its promise.
\<close>

datatype task =
    AwaitProcess int int
  | AwaitSleep int
  | Returned

datatype message =
    Attempting_to_start
  | Failed_retrying
  | Waiting_additional int
  | Giving_up_failed_too_many_times
  | Giving_up_too_many_unhealthy

datatype effect =
    Log_info message
  | Log_error message
  | Process_connect nat
  | Process_kill proc
  | Factory proc
  | Callback "conn option"
  | Sleep nat int
  | Subscription_dispose sub
  | Connection_dispose conn

text \<open>What \<^verbatim>\<open>start()\<close> returns: \<^verbatim>\<open>Promise.resolve()\<close>, or the promise of an invocation.\<close>

datatype promise =
    Promise_resolve
  | Promise_of nat

text \<open>
  Modelled from the spec: the Connection type (\<^verbatim>\<open>FlowIDEConnection\<close>, not among the
  sources). It registers termination listeners, each invoked once when the connection
  ends by crash, close or disposal; its \<^verbatim>\<open>dispose\<close> is idempotent and triggers the
  termination signal. A listener keeps the \<^verbatim>\<open>connectionStartTime\<close> its closure captured.
\<close>

record connection =
  c_proc :: proc
  c_ended :: bool

record listener =
  l_conn :: conn
  l_connectionStartTime :: int
  l_disposed :: bool

text \<open>
  The first five fields are the fields of the class. The clock is the sequence of values
  that successive calls of \<^verbatim>\<open>_getTimeMS\<close> return, with the number of calls made so far;
  no monotonicity is assumed.
\<close>

record state =
  currentIDEConnection :: "conn option"
  currentIDEConnectionSubscription :: "sub option"
  consecutiveUnhealthyConnections :: int
  isStarted :: bool
  isDisposed :: bool
  clock :: "nat \<Rightarrow> int"
  reads :: nat
  tasks :: "task list"
  connections :: "connection list"
  listeners :: "listener list"
  trace :: "effect list"

definition constructor :: "(nat \<Rightarrow> int) \<Rightarrow> state" where
  "constructor clk =
     \<lparr> currentIDEConnection = None,
       currentIDEConnectionSubscription = None,
       consecutiveUnhealthyConnections = 0,
       isStarted = False,
       isDisposed = False,
       clock = clk, reads = 0, tasks = [], connections = [], listeners = [], trace = [] \<rparr>"

subsection \<open>Primitive operations\<close>

definition emit :: "effect \<Rightarrow> state \<Rightarrow> state" where
  "emit e w = w\<lparr>trace := trace w @ [e]\<rparr>"

definition getTimeMS :: "state \<Rightarrow> int \<times> state" where
  "getTimeMS w = (clock w (reads w), w\<lparr>reads := Suc (reads w)\<rparr>)"

definition set_task :: "nat \<Rightarrow> task \<Rightarrow> state \<Rightarrow> state" where
  "set_task k t w = w\<lparr>tasks := (tasks w)[k := t]\<rparr>"

definition ideConnectionFactory :: "proc \<Rightarrow> state \<Rightarrow> conn \<times> state" where
  "ideConnectionFactory p w =
     (let w1 = emit (Factory p) w
      in (length (connections w1),
          w1\<lparr>connections := connections w1 @ [\<lparr>c_proc = p, c_ended = False\<rparr>]\<rparr>))"

definition onWillDispose :: "conn \<Rightarrow> int \<Rightarrow> state \<Rightarrow> sub \<times> state" where
  "onWillDispose c connectionStartTime w =
     (length (listeners w),
      w\<lparr>listeners := listeners w @
          [\<lparr>l_conn = c, l_connectionStartTime = connectionStartTime, l_disposed = False\<rparr>]\<rparr>)"

definition subscription_dispose :: "sub \<Rightarrow> state \<Rightarrow> state" where
  "subscription_dispose s w =
     (let w1 = emit (Subscription_dispose s) w
      in if s < length (listeners w1)
         then w1\<lparr>listeners := (listeners w1)[s := (listeners w1 ! s)\<lparr>l_disposed := True\<rparr>]\<rparr>
         else w1)"

subsection \<open>\<^verbatim>\<open>_makeIDEConnection\<close>\<close>

text \<open>
  One pass from the top of the \<^verbatim>\<open>while (true)\<close> body to \<^verbatim>\<open>await processPromise\<close>:
  read \<^verbatim>\<open>attemptStartTime\<close>, publish and connect the process stream, suspend.
\<close>

definition attempt :: "nat \<Rightarrow> int \<Rightarrow> state \<Rightarrow> state" where
  "attempt k endTimeMS w =
     (let (attemptStartTime, w1) = getTimeMS w;
          w2 = emit (Process_connect k) w1
      in set_task k (AwaitProcess endTimeMS attemptStartTime) w2)"

text \<open>
  The call itself: everything up to the first suspension. The invocation takes the next
  index in the list of invocations, and the call returns the promise of that invocation.
\<close>

definition makeIDEConnection :: "state \<Rightarrow> promise \<times> state" where
  "makeIDEConnection w =
     (let k = length (tasks w);
          w0 = w\<lparr>tasks := tasks w @ [Returned]\<rparr>;
          w1 = emit (Log_info Attempting_to_start) w0;
          (now, w2) = getTimeMS w1;
          endTimeMS = now + IDE_CONNECTION_MAX_WAIT_MS
      in (Promise_of k, attempt k endTimeMS w2))"

text \<open>
  The closure given to \<^verbatim>\<open>onWillDispose\<close>, with the \<^verbatim>\<open>connectionStartTime\<close> it captured.
\<close>

definition willDispose_handler :: "int \<Rightarrow> state \<Rightarrow> state" where
  "willDispose_handler connectionStartTime w =
     (let w1 = emit (Callback None) w;
          (now, w2) = getTimeMS w1;
          connectionAliveTime = now - connectionStartTime
      in if connectionAliveTime < IDE_CONNECTION_HEALTHY_THRESHOLD_MS
         then (let w3 = w2\<lparr>consecutiveUnhealthyConnections :=
                              consecutiveUnhealthyConnections w2 + 1\<rparr>
               in if consecutiveUnhealthyConnections w3 \<ge> MAX_UNHEALTHY_CONNECTIONS
                  then emit (Log_error Giving_up_too_many_unhealthy) w3
                  else snd (makeIDEConnection w3))
         else snd (makeIDEConnection (w2\<lparr>consecutiveUnhealthyConnections := 0\<rparr>)))"

text \<open>After the loop: give up without a handle, or wrap the handle and publish it.\<close>

definition after_loop :: "nat \<Rightarrow> proc option \<Rightarrow> state \<Rightarrow> state" where
  "after_loop k proc w =
     (case proc of
        None \<Rightarrow> set_task k Returned (emit (Log_error Giving_up_failed_too_many_times) w)
      | Some p \<Rightarrow>
          (let (connectionStartTime, w1) = getTimeMS w;
               (ideConnection, w2) = ideConnectionFactory p w1;
               w3 = emit (Callback (Some ideConnection)) w2;
               (s, w4) = onWillDispose ideConnection connectionStartTime w3;
               w5 = w4\<lparr>currentIDEConnectionSubscription := Some s\<rparr>;
               w6 = w5\<lparr>currentIDEConnection := Some ideConnection\<rparr>
           in set_task k Returned w6))"

text \<open>
  Resumption at \<^verbatim>\<open>proc = await processPromise\<close> with the value the process source
  gave, down to the next suspension or the return.
\<close>

definition resume_process :: "nat \<Rightarrow> int \<Rightarrow> int \<Rightarrow> proc option \<Rightarrow> state \<Rightarrow> state" where
  "resume_process k endTimeMS attemptStartTime proc w =
     (if isDisposed w
      then set_task k Returned (case proc of Some p \<Rightarrow> emit (Process_kill p) w | None \<Rightarrow> w)
      else
        (let (attemptEndTime, w1) = getTimeMS w
         in if proc \<noteq> None \<or> attemptEndTime > endTimeMS
            then after_loop k proc w1
            else
              (let w2 = emit (Log_info Failed_retrying) w1;
                   attemptWallTime = attemptEndTime - attemptStartTime;
                   additionalWaitTime = IDE_CONNECTION_MIN_INTERVAL_MS - attemptWallTime
               in if additionalWaitTime > 0
                  then (let w3 = emit (Log_info (Waiting_additional additionalWaitTime)) w2;
                            w4 = emit (Sleep k additionalWaitTime) w3
                        in set_task k (AwaitSleep endTimeMS) w4)
                  else attempt k endTimeMS w2)))"

text \<open>Resumption at \<^verbatim>\<open>await this._sleep(additionalWaitTime)\<close>: the loop goes round.\<close>

definition resume_sleep :: "nat \<Rightarrow> int \<Rightarrow> state \<Rightarrow> state" where
  "resume_sleep k endTimeMS w = attempt k endTimeMS w"

subsection \<open>The connection's termination signal\<close>

text \<open>
  Modelled from the spec: the end of a connection (\<^verbatim>\<open>FlowIDEConnection\<close> is not among
  the sources). It happens once per connection and invokes the listeners registered on
  it whose subscription has not been disposed, in registration order.
\<close>

definition live_listeners :: "conn \<Rightarrow> state \<Rightarrow> nat list" where
  "live_listeners c w =
     filter (\<lambda>i. l_conn (listeners w ! i) = c \<and> \<not> l_disposed (listeners w ! i))
            [0 ..< length (listeners w)]"

definition connection_end :: "conn \<Rightarrow> state \<Rightarrow> state" where
  "connection_end c w =
     (if c < length (connections w) \<and> \<not> c_ended (connections w ! c)
      then (let w1 = w\<lparr>connections := (connections w)[c := (connections w ! c)\<lparr>c_ended := True\<rparr>]\<rparr>
            in foldl (\<lambda>v i. willDispose_handler (l_connectionStartTime (listeners w1 ! i)) v)
                     w1 (live_listeners c w1))
      else w)"

definition connection_dispose :: "conn \<Rightarrow> state \<Rightarrow> state" where
  "connection_dispose c w = connection_end c (emit (Connection_dispose c) w)"

subsection \<open>\<^verbatim>\<open>start\<close> and \<^verbatim>\<open>dispose\<close>\<close>

definition start :: "state \<Rightarrow> promise \<times> state" where
  "start w =
     (if \<not> isStarted w
      then makeIDEConnection (w\<lparr>isStarted := True\<rparr>)
      else (Promise_resolve, w))"

definition dispose :: "state \<Rightarrow> state" where
  "dispose w =
     (if \<not> isDisposed w
      then (let w1 = w\<lparr>isDisposed := True\<rparr>;
                w2 = (case currentIDEConnectionSubscription w1 of
                        Some s \<Rightarrow> subscription_dispose s w1
                      | None \<Rightarrow> w1);
                w3 = (case currentIDEConnection w2 of
                        Some c \<Rightarrow> connection_dispose c w2
                      | None \<Rightarrow> w2)
            in w3)
      else w)"

text \<open>A promise is resolved when it is \<^verbatim>\<open>Promise.resolve()\<close> or its invocation returned.\<close>

fun resolved :: "promise \<Rightarrow> state \<Rightarrow> bool" where
  "resolved Promise_resolve w = True"
| "resolved (Promise_of k) w = (k < length (tasks w) \<and> tasks w ! k = Returned)"

subsection \<open>Events and runs\<close>

text \<open>
  What the environment can do: call the two public methods, resolve the process promise
  or the sleep of a suspended invocation, end a connection that has not ended. An event
  that cannot happen in a state leaves it unchanged.
\<close>

datatype event =
    Call_start
  | Call_dispose
  | Process_resolved nat "proc option"
  | Sleep_resolved nat
  | Connection_ends conn

fun step :: "state \<Rightarrow> event \<Rightarrow> state" where
  "step w Call_start = snd (start w)"
| "step w Call_dispose = dispose w"
| "step w (Process_resolved k proc) =
     (if k < length (tasks w)
      then (case tasks w ! k of
              AwaitProcess endTimeMS attemptStartTime \<Rightarrow>
                resume_process k endTimeMS attemptStartTime proc w
            | _ \<Rightarrow> w)
      else w)"
| "step w (Sleep_resolved k) =
     (if k < length (tasks w)
      then (case tasks w ! k of
              AwaitSleep endTimeMS \<Rightarrow> resume_sleep k endTimeMS w
            | _ \<Rightarrow> w)
      else w)"
| "step w (Connection_ends c) = connection_end c w"

definition run :: "(nat \<Rightarrow> int) \<Rightarrow> event list \<Rightarrow> state" where
  "run clk evs = foldl step (constructor clk) evs"

subsection \<open>Observations on the trace\<close>

text \<open>The effects that one event adds to the trace.\<close>

definition new_effects :: "state \<Rightarrow> event \<Rightarrow> effect list" where
  "new_effects w e = drop (length (trace w)) (trace (step w e))"

text \<open>The arguments of the successive invocations of \<^verbatim>\<open>_ideConnectionCallback\<close>.\<close>

fun callbacks :: "effect list \<Rightarrow> conn option list" where
  "callbacks [] = []"
| "callbacks (Callback x # es) = x # callbacks es"
| "callbacks (e # es) = callbacks es"

text \<open>The requests made to the process source, by invocation.\<close>

fun connects :: "effect list \<Rightarrow> nat list" where
  "connects [] = []"
| "connects (Process_connect k # es) = k # connects es"
| "connects (e # es) = connects es"

text \<open>The durations of the successive calls of \<^verbatim>\<open>_sleep\<close>.\<close>

fun sleeps :: "effect list \<Rightarrow> int list" where
  "sleeps [] = []"
| "sleeps (Sleep k ms # es) = ms # sleeps es"
| "sleeps (e # es) = sleeps es"

text \<open>The handles passed to the connection factory.\<close>

fun factory_calls :: "effect list \<Rightarrow> proc list" where
  "factory_calls [] = []"
| "factory_calls (Factory p # es) = p # factory_calls es"
| "factory_calls (e # es) = factory_calls es"

text \<open>The subscriptions released.\<close>

fun releases :: "effect list \<Rightarrow> sub list" where
  "releases [] = []"
| "releases (Subscription_dispose s # es) = s # releases es"
| "releases (e # es) = releases es"

text \<open>
  A sequence of callback arguments alternates when connections and absences take turns;
  the flag says whether a connection is due next.
\<close>

fun alternating :: "bool \<Rightarrow> conn option list \<Rightarrow> bool" where
  "alternating connection_due [] = True"
| "alternating connection_due (x # xs) =
     ((x \<noteq> None) = connection_due \<and> alternating (\<not> connection_due) xs)"

text \<open>An event other than the arrival of a process handle.\<close>

fun no_handle :: "event \<Rightarrow> bool" where
  "no_handle (Process_resolved k (Some p)) = False"
| "no_handle e = True"

text \<open>An event other than the end of a connection.\<close>

fun no_termination :: "event \<Rightarrow> bool" where
  "no_termination (Connection_ends c) = False"
| "no_termination e = True"

text \<open>The wait the throttling rule prescribes after an attempt that took \<open>elapsed\<close> ms.\<close>

definition additional_wait :: "int \<Rightarrow> int" where
  "additional_wait elapsed = max 0 (IDE_CONNECTION_MIN_INTERVAL_MS - elapsed)"

text \<open>
  Supervision is over: the watcher was started, no invocation of
  \<^verbatim>\<open>_makeIDEConnection\<close> is suspended and no connection is alive.
\<close>

definition supervision_over :: "state \<Rightarrow> bool" where
  "supervision_over w \<longleftrightarrow>
     isStarted w
   \<and> list_all (\<lambda>t. t = Returned) (tasks w)
   \<and> list_all c_ended (connections w)"

text \<open>
  Connection \<open>c\<close> exists and has not ended; and the \<^verbatim>\<open>connectionAliveTime\<close> that its
  termination handler computes if the connection ends now: the next reading of the clock
  minus the \<^verbatim>\<open>connectionStartTime\<close> captured when the connection was made.
\<close>

definition alive :: "state \<Rightarrow> conn \<Rightarrow> bool" where
  "alive w c \<longleftrightarrow> c < length (connections w) \<and> \<not> c_ended (connections w ! c)"

definition alive_time :: "state \<Rightarrow> conn \<Rightarrow> int" where
  "alive_time w c = clock w (reads w) - l_connectionStartTime (listeners w ! c)"

text \<open>
  The events of a crash loop: the watcher is started and, \<open>n\<close> times over, the process
  source gives a handle and the connection made from it ends.
\<close>

definition crash_loop :: "nat \<Rightarrow> event list" where
  "crash_loop n =
     Call_start # concat (map (\<lambda>k. [Process_resolved k (Some k), Connection_ends k]) [0 ..< n])"

text \<open>A suspended invocation has the given deadline \<^verbatim>\<open>endTimeMS\<close>.\<close>

fun deadline_is :: "int \<Rightarrow> task \<Rightarrow> bool" where
  "deadline_is d (AwaitProcess endTimeMS attemptStartTime) = (endTimeMS = d)"
| "deadline_is d (AwaitSleep endTimeMS) = (endTimeMS = d)"
| "deadline_is d Returned = True"

subsection \<open>The invariant of the reachable states\<close>

text \<open>
  Connection \<open>i\<close> carries listener \<open>i\<close> and was produced by invocation \<open>i\<close>; only the last
  invocation can be suspended and only the last connection can be alive, never both; the
  two fields name the last connection made; a disposed subscription or a disposed watcher
  leaves no connection alive; the counter stays within the limit and reaching the limit
  ends supervision.
\<close>

definition watcher_inv :: "state \<Rightarrow> bool" where
  "watcher_inv w \<longleftrightarrow>
     length (listeners w) = length (connections w)
   \<and> (\<forall>i < length (connections w). l_conn (listeners w ! i) = i)
   \<and> (\<not> isStarted w \<longrightarrow> tasks w = [] \<and> consecutiveUnhealthyConnections w = 0)
   \<and> length (connections w) \<le> length (tasks w)
   \<and> length (tasks w) \<le> Suc (length (connections w))
   \<and> (\<forall>k < length (connections w). tasks w ! k = Returned)
   \<and> (\<forall>i < length (connections w). Suc i < length (tasks w) \<longrightarrow> c_ended (connections w ! i))
   \<and> currentIDEConnection w =
       (if connections w = [] then None else Some (length (connections w) - 1))
   \<and> currentIDEConnectionSubscription w =
       (if connections w = [] then None else Some (length (connections w) - 1))
   \<and> (\<forall>i < length (connections w). l_disposed (listeners w ! i) \<longrightarrow> c_ended (connections w ! i))
   \<and> (isDisposed w \<longrightarrow> (\<forall>i < length (connections w). c_ended (connections w ! i)))
   \<and> 0 \<le> consecutiveUnhealthyConnections w
   \<and> consecutiveUnhealthyConnections w \<le> MAX_UNHEALTHY_CONNECTIONS
   \<and> (consecutiveUnhealthyConnections w \<ge> MAX_UNHEALTHY_CONNECTIONS \<longrightarrow>
        (\<forall>k < length (tasks w). tasks w ! k = Returned)
      \<and> (\<forall>i < length (connections w). c_ended (connections w ! i)))"

text \<open>
  The callback has been given connections and absences in turn, a connection is due when
  an invocation is suspended, an absence when a connection is alive, and nothing before
  the watcher is started.
\<close>

definition callback_inv :: "state \<Rightarrow> bool" where
  "callback_inv w \<longleftrightarrow>
     alternating True (callbacks (trace w))
   \<and> ((\<exists>k < length (tasks w). tasks w ! k \<noteq> Returned) \<longrightarrow>
        even (length (callbacks (trace w))))
   \<and> ((\<exists>i < length (connections w). \<not> c_ended (connections w ! i)) \<longrightarrow>
        odd (length (callbacks (trace w))))
   \<and> (\<not> isStarted w \<longrightarrow> callbacks (trace w) = [])"

text \<open>
  While the process source has given no handle: there is no connection, the callback and
  the factory have not been called, and the one invocation there can be is the one
  \<^verbatim>\<open>start()\<close> made, with the deadline computed from the first reading of the clock.
\<close>

definition absent_inv :: "(nat \<Rightarrow> int) \<Rightarrow> state \<Rightarrow> bool" where
  "absent_inv clk w \<longleftrightarrow>
     connections w = []
   \<and> clock w = clk
   \<and> callbacks (trace w) = []
   \<and> factory_calls (trace w) = []
   \<and> list_all (deadline_is (clk 0 + IDE_CONNECTION_MAX_WAIT_MS)) (tasks w)
   \<and> (\<not> isStarted w \<longrightarrow> tasks w = [] \<and> reads w = 0)
   \<and> (isStarted w \<longrightarrow> length (tasks w) = 1)"

section \<open>The handlers in closed form\<close>

lemma attempt_eq:
  "attempt k endTimeMS w =
     w\<lparr>reads := Suc (reads w),
       trace := trace w @ [Process_connect k],
       tasks := (tasks w)[k := AwaitProcess endTimeMS (clock w (reads w))]\<rparr>"
  by (simp add: attempt_def getTimeMS_def emit_def set_task_def)

lemma makeIDEConnection_eq:
  "makeIDEConnection w =
     (Promise_of (length (tasks w)),
      w\<lparr>reads := Suc (Suc (reads w)),
        trace := trace w @ [Log_info Attempting_to_start, Process_connect (length (tasks w))],
        tasks := tasks w @ [AwaitProcess (clock w (reads w) + IDE_CONNECTION_MAX_WAIT_MS)
                                         (clock w (Suc (reads w)))]\<rparr>)"
  by (simp add: makeIDEConnection_def attempt_eq getTimeMS_def emit_def Let_def)

lemma willDispose_handler_eq:
  "willDispose_handler st w =
     (if clock w (reads w) - st < IDE_CONNECTION_HEALTHY_THRESHOLD_MS
      then (if consecutiveUnhealthyConnections w + 1 \<ge> MAX_UNHEALTHY_CONNECTIONS
            then w\<lparr>reads := Suc (reads w),
                   consecutiveUnhealthyConnections := consecutiveUnhealthyConnections w + 1,
                   trace := trace w @ [Callback None, Log_error Giving_up_too_many_unhealthy]\<rparr>
            else w\<lparr>reads := Suc (Suc (Suc (reads w))),
                   consecutiveUnhealthyConnections := consecutiveUnhealthyConnections w + 1,
                   trace := trace w @ [Callback None, Log_info Attempting_to_start,
                                       Process_connect (length (tasks w))],
                   tasks := tasks w @
                     [AwaitProcess (clock w (Suc (reads w)) + IDE_CONNECTION_MAX_WAIT_MS)
                                   (clock w (Suc (Suc (reads w))))]\<rparr>)
      else w\<lparr>reads := Suc (Suc (Suc (reads w))),
             consecutiveUnhealthyConnections := 0,
             trace := trace w @ [Callback None, Log_info Attempting_to_start,
                                 Process_connect (length (tasks w))],
             tasks := tasks w @
               [AwaitProcess (clock w (Suc (reads w)) + IDE_CONNECTION_MAX_WAIT_MS)
                             (clock w (Suc (Suc (reads w))))]\<rparr>)"
  by (simp add: willDispose_handler_def makeIDEConnection_eq getTimeMS_def emit_def Let_def)

lemma after_loop_None_eq:
  "after_loop k None w =
     w\<lparr>trace := trace w @ [Log_error Giving_up_failed_too_many_times],
       tasks := (tasks w)[k := Returned]\<rparr>"
  by (simp add: after_loop_def emit_def set_task_def)

lemma after_loop_Some_eq:
  "after_loop k (Some p) w =
     w\<lparr>reads := Suc (reads w),
       trace := trace w @ [Factory p, Callback (Some (length (connections w)))],
       connections := connections w @ [\<lparr>c_proc = p, c_ended = False\<rparr>],
       listeners := listeners w @
         [\<lparr>l_conn = length (connections w), l_connectionStartTime = clock w (reads w),
           l_disposed = False\<rparr>],
       currentIDEConnectionSubscription := Some (length (listeners w)),
       currentIDEConnection := Some (length (connections w)),
       tasks := (tasks w)[k := Returned]\<rparr>"
  by (simp add: after_loop_def emit_def set_task_def getTimeMS_def ideConnectionFactory_def
      onWillDispose_def Let_def)

lemma resume_process_eq:
  "resume_process k endTimeMS st proc w =
     (if isDisposed w
      then (case proc of
              Some p \<Rightarrow> w\<lparr>trace := trace w @ [Process_kill p], tasks := (tasks w)[k := Returned]\<rparr>
            | None \<Rightarrow> w\<lparr>tasks := (tasks w)[k := Returned]\<rparr>)
      else if proc \<noteq> None \<or> clock w (reads w) > endTimeMS
      then after_loop k proc (w\<lparr>reads := Suc (reads w)\<rparr>)
      else if IDE_CONNECTION_MIN_INTERVAL_MS - (clock w (reads w) - st) > 0
      then w\<lparr>reads := Suc (reads w),
             trace := trace w @ [Log_info Failed_retrying,
                Log_info (Waiting_additional (IDE_CONNECTION_MIN_INTERVAL_MS - (clock w (reads w) - st))),
                Sleep k (IDE_CONNECTION_MIN_INTERVAL_MS - (clock w (reads w) - st))],
             tasks := (tasks w)[k := AwaitSleep endTimeMS]\<rparr>
      else w\<lparr>reads := Suc (Suc (reads w)),
             trace := trace w @ [Log_info Failed_retrying, Process_connect k],
             tasks := (tasks w)[k := AwaitProcess endTimeMS (clock w (Suc (reads w)))]\<rparr>)"
  by (simp add: resume_process_def attempt_eq getTimeMS_def emit_def set_task_def Let_def
      split: option.split)


section \<open>The invariant holds in every run\<close>

lemma inv_constructor: "watcher_inv (constructor clk)"
  by (simp add: watcher_inv_def constructor_def MAX_UNHEALTHY_CONNECTIONS_def)

lemma inv_start: "watcher_inv w \<Longrightarrow> watcher_inv (snd (start w))"
  by (auto simp: watcher_inv_def start_def makeIDEConnection_eq MAX_UNHEALTHY_CONNECTIONS_def)

lemma pending_process:
  assumes "watcher_inv w" "k < length (tasks w)" "tasks w ! k = AwaitProcess d st"
  shows "k = length (connections w)" "length (tasks w) = Suc k"
    "\<forall>i < length (connections w). c_ended (connections w ! i)"
    "consecutiveUnhealthyConnections w < MAX_UNHEALTHY_CONNECTIONS"
proof -
  from assms have "\<not> k < length (connections w)"
    by (auto simp: watcher_inv_def)
  with assms show k: "k = length (connections w)" and "length (tasks w) = Suc k"
    by (auto simp: watcher_inv_def)
  with assms show "\<forall>i < length (connections w). c_ended (connections w ! i)"
    by (auto simp: watcher_inv_def)
  show "consecutiveUnhealthyConnections w < MAX_UNHEALTHY_CONNECTIONS"
  proof (rule ccontr)
    assume "\<not> consecutiveUnhealthyConnections w < MAX_UNHEALTHY_CONNECTIONS"
    with assms(1) have "\<forall>k < length (tasks w). tasks w ! k = Returned"
      by (simp add: watcher_inv_def)
    with assms(2,3) show False by simp
  qed
qed


lemma inv_resume_process:
  assumes "watcher_inv w" "k < length (tasks w)" "tasks w ! k = AwaitProcess d st"
  shows "watcher_inv (resume_process k d st proc w)"
proof -
  note p = pending_process[OF assms]
  show ?thesis
    using assms p
    by (auto simp: watcher_inv_def resume_process_eq after_loop_None_eq after_loop_Some_eq
        nth_append nth_list_update less_Suc_eq split: option.split)
qed


lemma inv_resume_sleep:
  assumes "watcher_inv w" "k < length (tasks w)" "tasks w ! k = AwaitSleep d"
  shows "watcher_inv (resume_sleep k d w)"
proof -
  from assms have "\<not> k < length (connections w)"
    by (auto simp: watcher_inv_def)
  moreover have "consecutiveUnhealthyConnections w < MAX_UNHEALTHY_CONNECTIONS"
  proof (rule ccontr)
    assume "\<not> consecutiveUnhealthyConnections w < MAX_UNHEALTHY_CONNECTIONS"
    with assms(1) have "\<forall>k < length (tasks w). tasks w ! k = Returned"
      by (simp add: watcher_inv_def)
    with assms(2,3) show False by simp
  qed
  ultimately show ?thesis
    using assms
    by (auto simp: watcher_inv_def resume_sleep_def attempt_eq nth_list_update)
qed

lemma filter_upt_eq:
  "filter (\<lambda>i. i = c \<and> P i) [0 ..< n] = (if c < n \<and> P c then [c] else [])"
  by (induction n) auto

lemma live_listeners_inv:
  assumes "length (listeners w) = length (connections w)"
    and "\<forall>i < length (connections w). l_conn (listeners w ! i) = i"
  shows "live_listeners c w =
     (if c < length (connections w) \<and> \<not> l_disposed (listeners w ! c) then [c] else [])"
proof -
  have "filter (\<lambda>i. l_conn (listeners w ! i) = c \<and> \<not> l_disposed (listeners w ! i))
               [0 ..< length (listeners w)]
      = filter (\<lambda>i. i = c \<and> \<not> l_disposed (listeners w ! i)) [0 ..< length (listeners w)]"
    using assms by (intro filter_cong) auto
  then show ?thesis
    using assms by (simp add: live_listeners_def filter_upt_eq)
qed

lemma live_connection:
  assumes "watcher_inv w" "c < length (connections w)" "\<not> c_ended (connections w ! c)"
  shows "Suc c = length (connections w)" "length (tasks w) = length (connections w)"
    "\<not> isDisposed w" "\<not> l_disposed (listeners w ! c)"
    "consecutiveUnhealthyConnections w < MAX_UNHEALTHY_CONNECTIONS"
    "length (listeners w) = length (connections w)"
    "l_conn (listeners w ! c) = c"
proof -
  from assms have "\<not> Suc c < length (tasks w)"
    by (auto simp: watcher_inv_def)
  with assms show "Suc c = length (connections w)" "length (tasks w) = length (connections w)"
    by (auto simp: watcher_inv_def)
  from assms show "\<not> isDisposed w" "\<not> l_disposed (listeners w ! c)"
    "length (listeners w) = length (connections w)" "l_conn (listeners w ! c) = c"
    by (auto simp: watcher_inv_def)
  show "consecutiveUnhealthyConnections w < MAX_UNHEALTHY_CONNECTIONS"
  proof (rule ccontr)
    assume "\<not> consecutiveUnhealthyConnections w < MAX_UNHEALTHY_CONNECTIONS"
    with assms(1) have "\<forall>i < length (connections w). c_ended (connections w ! i)"
      by (simp add: watcher_inv_def)
    with assms(2,3) show False by simp
  qed
qed

lemma connection_end_live:
  assumes "watcher_inv w" "c < length (connections w)" "\<not> c_ended (connections w ! c)"
  shows "connection_end c w =
     willDispose_handler (l_connectionStartTime (listeners w ! c))
       (w\<lparr>connections := (connections w)[c := (connections w ! c)\<lparr>c_ended := True\<rparr>]\<rparr>)"
proof -
  let ?w1 = "w\<lparr>connections := (connections w)[c := (connections w ! c)\<lparr>c_ended := True\<rparr>]\<rparr>"
  have "live_listeners c ?w1 = [c]"
    using assms by (subst live_listeners_inv) (auto simp: watcher_inv_def)
  with assms(2,3) show ?thesis
    by (simp add: connection_end_def Let_def)
qed

lemma connection_end_ended:
  "\<not> (c < length (connections w) \<and> \<not> c_ended (connections w ! c)) \<Longrightarrow> connection_end c w = w"
  by (auto simp: connection_end_def)

lemma inv_connection_end:
  assumes "watcher_inv w"
  shows "watcher_inv (connection_end c w)"
proof (cases "c < length (connections w) \<and> \<not> c_ended (connections w ! c)")
  case False
  with assms show ?thesis by (simp add: connection_end_ended)
next
  case True
  then have c: "c < length (connections w)" "\<not> c_ended (connections w ! c)" by auto
  note l = live_connection[OF assms c]
  show ?thesis
    unfolding connection_end_live[OF assms c]
    using assms l c
    by (auto simp: watcher_inv_def willDispose_handler_eq MAX_UNHEALTHY_CONNECTIONS_def
        nth_append nth_list_update less_Suc_eq)
qed


lemma connection_ended_update:
  "c_ended x \<Longrightarrow> x\<lparr>c_ended := True\<rparr> = x"
  by simp

lemma dispose_eq:
  assumes "watcher_inv w" "\<not> isDisposed w"
  shows "dispose w =
     (if connections w = [] then w\<lparr>isDisposed := True\<rparr>
      else w\<lparr>isDisposed := True,
             listeners := (listeners w)[length (connections w) - 1 :=
                (listeners w ! (length (connections w) - 1))\<lparr>l_disposed := True\<rparr>],
             trace := trace w @ [Subscription_dispose (length (connections w) - 1),
                                 Connection_dispose (length (connections w) - 1)],
             connections := (connections w)[length (connections w) - 1 :=
                (connections w ! (length (connections w) - 1))\<lparr>c_ended := True\<rparr>]\<rparr>)"
proof (cases "connections w = []")
  case True
  with assms show ?thesis
    by (simp add: dispose_def watcher_inv_def)
next
  case False
  let ?c = "length (connections w) - 1"
  let ?w2 = "w\<lparr>isDisposed := True,
                listeners := (listeners w)[?c := (listeners w ! ?c)\<lparr>l_disposed := True\<rparr>],
                trace := trace w @ [Subscription_dispose ?c, Connection_dispose ?c]\<rparr>"
  from False have c: "?c < length (connections w)" by (cases "connections w") auto
  from assms have len: "length (listeners w) = length (connections w)"
    and lc: "\<forall>i < length (connections w). l_conn (listeners w ! i) = i"
    by (auto simp: watcher_inv_def)
  have "live_listeners ?c (?w2\<lparr>connections := (connections w)[?c := (connections w ! ?c)\<lparr>c_ended := True\<rparr>]\<rparr>) = []"
    using len lc c by (subst live_listeners_inv) (auto simp: nth_list_update)
  then have ce: "connection_end ?c ?w2 =
      ?w2\<lparr>connections := (connections w)[?c := (connections w ! ?c)\<lparr>c_ended := True\<rparr>]\<rparr>"
  proof (cases "c_ended (connections w ! ?c)")
    case True
    then have "(connections w)[?c := (connections w ! ?c)\<lparr>c_ended := True\<rparr>] = connections ?w2"
      by (simp add: connection_ended_update)
    then have "?w2\<lparr>connections := (connections w)[?c := (connections w ! ?c)\<lparr>c_ended := True\<rparr>]\<rparr> = ?w2"
      by (simp only: state.update_convs state.surjective[symmetric] state.simps) simp
    with True show ?thesis by (simp add: connection_end_def)
  next
    case False
    with c \<open>live_listeners ?c _ = []\<close> show ?thesis
      by (simp add: connection_end_def Let_def)
  qed
  have "dispose w = connection_end ?c ?w2"
    using assms False len c
    by (simp add: dispose_def watcher_inv_def subscription_dispose_def connection_dispose_def
        emit_def Let_def)
  with ce False show ?thesis by simp
qed

lemma dispose_disposed: "isDisposed w \<Longrightarrow> dispose w = w"
  by (simp add: dispose_def)

lemma inv_dispose:
  assumes "watcher_inv w"
  shows "watcher_inv (dispose w)"
proof (cases "isDisposed w")
  case True
  with assms show ?thesis by (simp add: dispose_disposed)
next
  case False
  show ?thesis
    unfolding dispose_eq[OF assms False]
    using assms
    by (auto simp: watcher_inv_def nth_list_update less_Suc_eq)
qed

lemma inv_step: "watcher_inv w \<Longrightarrow> watcher_inv (step w e)"
  by (cases e)
     (auto simp: inv_start inv_dispose inv_resume_process inv_resume_sleep inv_connection_end
           split: task.split)

lemma foldl_step_inv: "watcher_inv w \<Longrightarrow> watcher_inv (foldl step w evs)"
  by (induction evs arbitrary: w) (auto simp: inv_step)

lemma inv_run: "watcher_inv (run clk evs)"
  by (simp add: run_def foldl_step_inv inv_constructor)


subsection \<open>The effects of one event\<close>

text \<open>
  In a state that satisfies the invariant, what each event adds to the trace.
\<close>

lemma step_Connection_ends:
  assumes "watcher_inv w"
  shows "step w (Connection_ends c) =
     (if c < length (connections w) \<and> \<not> c_ended (connections w ! c)
      then willDispose_handler (l_connectionStartTime (listeners w ! c))
             (w\<lparr>connections := (connections w)[c := (connections w ! c)\<lparr>c_ended := True\<rparr>]\<rparr>)
      else w)"
  using connection_end_live[OF assms, of c] connection_end_ended[of c w]
  by auto

lemma effects_start:
  "new_effects w Call_start =
     (if isStarted w then []
      else [Log_info Attempting_to_start, Process_connect (length (tasks w))])"
  by (simp add: new_effects_def start_def makeIDEConnection_eq)

lemma effects_dispose:
  assumes "watcher_inv w"
  shows "new_effects w Call_dispose =
     (if isDisposed w \<or> connections w = [] then []
      else [Subscription_dispose (length (connections w) - 1),
            Connection_dispose (length (connections w) - 1)])"
proof (cases "isDisposed w")
  case True
  then show ?thesis by (simp add: new_effects_def dispose_disposed)
next
  case False
  show ?thesis
    using False by (simp add: new_effects_def dispose_eq[OF assms False])
qed

lemma effects_process:
  "new_effects w (Process_resolved k proc) =
     (if k < length (tasks w)
      then (case tasks w ! k of
              AwaitProcess endTimeMS st \<Rightarrow>
                (if isDisposed w
                 then (case proc of Some p \<Rightarrow> [Process_kill p] | None \<Rightarrow> [])
                 else (case proc of
                         Some p \<Rightarrow> [Factory p, Callback (Some (length (connections w)))]
                       | None \<Rightarrow>
                           if clock w (reads w) > endTimeMS
                           then [Log_error Giving_up_failed_too_many_times]
                           else if IDE_CONNECTION_MIN_INTERVAL_MS - (clock w (reads w) - st) > 0
                           then [Log_info Failed_retrying,
                                 Log_info (Waiting_additional
                                   (IDE_CONNECTION_MIN_INTERVAL_MS - (clock w (reads w) - st))),
                                 Sleep k (IDE_CONNECTION_MIN_INTERVAL_MS - (clock w (reads w) - st))]
                           else [Log_info Failed_retrying, Process_connect k]))
            | _ \<Rightarrow> [])
      else [])"
  by (simp add: new_effects_def resume_process_eq after_loop_None_eq after_loop_Some_eq
      split: task.split option.split)

lemma effects_sleep:
  "new_effects w (Sleep_resolved k) =
     (if k < length (tasks w)
      then (case tasks w ! k of AwaitSleep endTimeMS \<Rightarrow> [Process_connect k] | _ \<Rightarrow> [])
      else [])"
  by (simp add: new_effects_def resume_sleep_def attempt_eq split: task.split)

lemma effects_ends:
  assumes "watcher_inv w"
  shows "new_effects w (Connection_ends c) =
     (if c < length (connections w) \<and> \<not> c_ended (connections w ! c)
      then (if clock w (reads w) - l_connectionStartTime (listeners w ! c)
                 < IDE_CONNECTION_HEALTHY_THRESHOLD_MS
              \<and> consecutiveUnhealthyConnections w + 1 \<ge> MAX_UNHEALTHY_CONNECTIONS
            then [Callback None, Log_error Giving_up_too_many_unhealthy]
            else [Callback None, Log_info Attempting_to_start,
                  Process_connect (length (tasks w))])
      else [])"
  unfolding new_effects_def step_Connection_ends[OF assms]
  by (simp add: willDispose_handler_eq)

lemma trace_step:
  assumes "watcher_inv w"
  shows "trace (step w e) = trace w @ new_effects w e"
proof (cases e)
  case Call_start
  then show ?thesis by (simp add: new_effects_def start_def makeIDEConnection_eq)
next
  case Call_dispose
  then show ?thesis
    by (cases "isDisposed w") (simp_all add: new_effects_def dispose_disposed dispose_eq[OF assms])
next
  case (Process_resolved k proc)
  then show ?thesis
    by (simp add: new_effects_def resume_process_eq after_loop_None_eq after_loop_Some_eq
      split: task.split option.split)
next
  case (Sleep_resolved k)
  then show ?thesis
    by (simp add: new_effects_def resume_sleep_def attempt_eq split: task.split)
next
  case (Connection_ends c)
  then show ?thesis
    unfolding new_effects_def Connection_ends step_Connection_ends[OF assms]
    by (simp add: willDispose_handler_eq)
qed

subsection \<open>Disposal is permanent\<close>

lemma willDispose_handler_isDisposed:
  "isDisposed (willDispose_handler st w) = isDisposed w"
  by (simp add: willDispose_handler_eq)

lemma foldl_handler_isDisposed:
  "isDisposed (foldl (\<lambda>v i. willDispose_handler (f i) v) w js) = isDisposed w"
  by (induction js arbitrary: w) (simp_all add: willDispose_handler_isDisposed)

lemma connection_end_isDisposed: "isDisposed (connection_end c w) = isDisposed w"
  by (simp add: connection_end_def Let_def foldl_handler_isDisposed)

lemma isDisposed_dispose: "isDisposed (dispose w)"
  by (simp add: dispose_def Let_def connection_dispose_def connection_end_isDisposed
      subscription_dispose_def emit_def split: option.split)

subsection \<open>Some runs, evaluated\<close>

text \<open>
  The states after a few short runs, for the examples that go with the claims.
\<close>

lemma run_connected:
  "run (\<lambda>n. 0) [Call_start, Process_resolved 0 (Some 7)] =
     \<lparr> currentIDEConnection = Some 0,
       currentIDEConnectionSubscription = Some 0,
       consecutiveUnhealthyConnections = 0,
       isStarted = True,
       isDisposed = False,
       clock = (\<lambda>n. 0), reads = 4, tasks = [Returned],
       connections = [\<lparr>c_proc = 7, c_ended = False\<rparr>],
       listeners = [\<lparr>l_conn = 0, l_connectionStartTime = 0, l_disposed = False\<rparr>],
       trace = [Log_info Attempting_to_start, Process_connect 0, Factory 7, Callback (Some 0)] \<rparr>"
  by (simp add: run_def constructor_def start_def makeIDEConnection_eq resume_process_eq
      after_loop_Some_eq IDE_CONNECTION_MAX_WAIT_MS_def)

lemma run_started:
  "run clk [Call_start] =
     \<lparr> currentIDEConnection = None,
       currentIDEConnectionSubscription = None,
       consecutiveUnhealthyConnections = 0,
       isStarted = True,
       isDisposed = False,
       clock = clk, reads = 2, tasks = [AwaitProcess (clk 0 + 1200000) (clk 1)],
       connections = [],
       listeners = [],
       trace = [Log_info Attempting_to_start, Process_connect 0] \<rparr>"
  by (simp add: run_def constructor_def start_def makeIDEConnection_eq
      IDE_CONNECTION_MAX_WAIT_MS_def)

lemma run_crashed:
  "run (\<lambda>n. 0) [Call_start, Process_resolved 0 (Some 7), Connection_ends 0] =
     \<lparr> currentIDEConnection = Some 0,
       currentIDEConnectionSubscription = Some 0,
       consecutiveUnhealthyConnections = 1,
       isStarted = True,
       isDisposed = False,
       clock = (\<lambda>n. 0), reads = 7, tasks = [Returned, AwaitProcess 1200000 0],
       connections = [\<lparr>c_proc = 7, c_ended = True\<rparr>],
       listeners = [\<lparr>l_conn = 0, l_connectionStartTime = 0, l_disposed = False\<rparr>],
       trace = [Log_info Attempting_to_start, Process_connect 0, Factory 7, Callback (Some 0),
                Callback None, Log_info Attempting_to_start, Process_connect 1] \<rparr>"
proof -
  have "run (\<lambda>n. 0) [Call_start, Process_resolved 0 (Some 7), Connection_ends 0] =
        step (run (\<lambda>n. 0) [Call_start, Process_resolved 0 (Some 7)]) (Connection_ends 0)"
    by (simp add: run_def)
  then show ?thesis
    by (simp add: run_connected connection_end_def live_listeners_def willDispose_handler_eq
        IDE_CONNECTION_MAX_WAIT_MS_def IDE_CONNECTION_HEALTHY_THRESHOLD_MS_def
        MAX_UNHEALTHY_CONNECTIONS_def)
qed

lemma run_sleeping:
  "run (\<lambda>n. 0) [Call_start, Process_resolved 0 None] =
     \<lparr> currentIDEConnection = None,
       currentIDEConnectionSubscription = None,
       consecutiveUnhealthyConnections = 0,
       isStarted = True,
       isDisposed = False,
       clock = (\<lambda>n. 0), reads = 3, tasks = [AwaitSleep 1200000],
       connections = [],
       listeners = [],
       trace = [Log_info Attempting_to_start, Process_connect 0, Log_info Failed_retrying,
                Log_info (Waiting_additional 1000), Sleep 0 1000] \<rparr>"
  by (simp add: run_def constructor_def start_def makeIDEConnection_eq resume_process_eq
      IDE_CONNECTION_MAX_WAIT_MS_def IDE_CONNECTION_MIN_INTERVAL_MS_def)

lemma run_disposed_sleeping:
  "run (\<lambda>n. 0) [Call_start, Process_resolved 0 None, Call_dispose] =
     \<lparr> currentIDEConnection = None,
       currentIDEConnectionSubscription = None,
       consecutiveUnhealthyConnections = 0,
       isStarted = True,
       isDisposed = True,
       clock = (\<lambda>n. 0), reads = 3, tasks = [AwaitSleep 1200000],
       connections = [],
       listeners = [],
       trace = [Log_info Attempting_to_start, Process_connect 0, Log_info Failed_retrying,
                Log_info (Waiting_additional 1000), Sleep 0 1000] \<rparr>"
proof -
  have "run (\<lambda>n. 0) [Call_start, Process_resolved 0 None, Call_dispose] =
        step (run (\<lambda>n. 0) [Call_start, Process_resolved 0 None]) Call_dispose"
    by (simp add: run_def)
  then show ?thesis
    by (simp add: run_sleeping dispose_def)
qed

lemma run_reconnected:
  "run (\<lambda>n. 0) [Call_start, Process_resolved 0 (Some 7), Connection_ends 0,
                 Process_resolved 1 (Some 8)] =
     \<lparr> currentIDEConnection = Some 1,
       currentIDEConnectionSubscription = Some 1,
       consecutiveUnhealthyConnections = 1,
       isStarted = True,
       isDisposed = False,
       clock = (\<lambda>n. 0), reads = 9, tasks = [Returned, Returned],
       connections = [\<lparr>c_proc = 7, c_ended = True\<rparr>, \<lparr>c_proc = 8, c_ended = False\<rparr>],
       listeners = [\<lparr>l_conn = 0, l_connectionStartTime = 0, l_disposed = False\<rparr>,
                    \<lparr>l_conn = 1, l_connectionStartTime = 0, l_disposed = False\<rparr>],
       trace = [Log_info Attempting_to_start, Process_connect 0, Factory 7, Callback (Some 0),
                Callback None, Log_info Attempting_to_start, Process_connect 1,
                Factory 8, Callback (Some 1)] \<rparr>"
proof -
  have "run (\<lambda>n. 0) [Call_start, Process_resolved 0 (Some 7), Connection_ends 0,
                     Process_resolved 1 (Some 8)] =
        step (run (\<lambda>n. 0) [Call_start, Process_resolved 0 (Some 7), Connection_ends 0])
             (Process_resolved 1 (Some 8))"
    by (simp add: run_def)
  then show ?thesis
    by (simp add: run_crashed resume_process_eq after_loop_Some_eq)
qed

subsection \<open>The current connection and its subscription\<close>

lemma current_step:
  assumes "watcher_inv w"
  shows "currentIDEConnection (step w e) = currentIDEConnection w
       \<or> (\<exists>k p. e = Process_resolved k (Some p))
         \<and> currentIDEConnection (step w e) = Some (length (connections w))"
proof (cases e)
  case Call_start
  then show ?thesis by (simp add: start_def makeIDEConnection_eq)
next
  case Call_dispose
  then show ?thesis
    by (cases "isDisposed w") (simp_all add: dispose_disposed dispose_eq[OF assms])
next
  case (Process_resolved k proc)
  then show ?thesis
    by (simp add: resume_process_eq after_loop_None_eq after_loop_Some_eq
        split: task.split option.split)
next
  case (Sleep_resolved k)
  then show ?thesis
    by (simp add: resume_sleep_def attempt_eq split: task.split)
next
  case (Connection_ends c)
  with step_Connection_ends[OF assms, of c] show ?thesis
    by (simp add: willDispose_handler_eq)
qed

lemma releases_step:
  assumes "watcher_inv w" "e \<noteq> Call_dispose"
  shows "releases (new_effects w e) = []"
proof (cases e)
  case Call_start
  then show ?thesis by (simp add: effects_start)
next
  case Call_dispose
  with assms show ?thesis by simp
next
  case (Process_resolved k proc)
  then show ?thesis by (simp add: effects_process split: task.split option.split)
next
  case (Sleep_resolved k)
  then show ?thesis by (simp add: effects_sleep split: task.split)
next
  case (Connection_ends c)
  then show ?thesis by (simp add: effects_ends[OF assms(1)])
qed

lemma replaced_connection_ended:
  assumes "watcher_inv w" "currentIDEConnection w = Some c"
    "currentIDEConnection (step w e) \<noteq> Some c"
  shows "c < length (connections w) \<and> c_ended (connections w ! c)
       \<and> currentIDEConnectionSubscription w = Some c
       \<and> currentIDEConnectionSubscription (step w e) = Some (length (listeners w))"
proof -
  from current_step[OF assms(1), of e] assms(2,3)
  obtain k p where e: "e = Process_resolved k (Some p)"
    by auto
  from assms(1,2) have c: "Suc c = length (connections w)"
    "currentIDEConnectionSubscription w = Some c"
    by (auto simp: watcher_inv_def split: if_splits)
  from assms(2,3) e have k: "k < length (tasks w)"
    by (auto split: if_splits)
  from assms(2,3) e k obtain d st where t: "tasks w ! k = AwaitProcess d st"
    by (cases "tasks w ! k") auto
  note p = pending_process[OF assms(1) k t]
  from assms(2,3) e k t have nd: "\<not> isDisposed w"
    by (auto simp: resume_process_eq)
  from p c have "c_ended (connections w ! c)" by auto
  moreover from e k t nd
  have "currentIDEConnectionSubscription (step w e) = Some (length (listeners w))"
    by (simp add: resume_process_eq after_loop_Some_eq)
  ultimately show ?thesis using c by simp
qed

subsection \<open>A disposed watcher\<close>

lemma disposed_step:
  assumes "watcher_inv w" "isDisposed w"
  shows "isDisposed (step w e)"
    and "callbacks (new_effects w e) = []"
    and "factory_calls (new_effects w e) = []"
proof -
  from assms have ended: "\<not> (c < length (connections w) \<and> \<not> c_ended (connections w ! c))" for c
    by (auto simp: watcher_inv_def)
  show "isDisposed (step w e)"
    using assms(2) ended
    by (cases e)
       (simp_all add: start_def makeIDEConnection_eq dispose_disposed resume_process_eq
          resume_sleep_def attempt_eq connection_end_ended split: task.split option.split)
  show "callbacks (new_effects w e) = []"
    using assms(2) ended
    by (cases e)
       (simp_all add: effects_start effects_dispose[OF assms(1)] effects_process effects_sleep
          effects_ends[OF assms(1)] split: task.split option.split)
  show "factory_calls (new_effects w e) = []"
    using assms(2) ended
    by (cases e)
       (simp_all add: effects_start effects_dispose[OF assms(1)] effects_process effects_sleep
          effects_ends[OF assms(1)] split: task.split option.split)
qed

subsection \<open>Callback invocations alternate\<close>

lemma callbacks_append: "callbacks (xs @ ys) = callbacks xs @ callbacks ys"
  by (induction xs rule: callbacks.induct) simp_all

lemma alternating_snoc:
  "alternating b (xs @ [x]) =
     (alternating b xs \<and> ((x \<noteq> None) = (if even (length xs) then b else \<not> b)))"
  by (induction xs arbitrary: b) auto

lemma callback_inv_start:
  assumes "watcher_inv w" "callback_inv w"
  shows "callback_inv (snd (start w))"
  using assms
  by (auto simp: callback_inv_def watcher_inv_def start_def makeIDEConnection_eq callbacks_append)

lemma callback_inv_dispose:
  assumes "watcher_inv w" "callback_inv w"
  shows "callback_inv (dispose w)"
proof (cases "isDisposed w")
  case True
  with assms show ?thesis by (simp add: dispose_disposed)
next
  case False
  have "c_ended (connections w ! i)" if "Suc i < length (connections w)" for i
    using that assms(1) by (auto simp: watcher_inv_def)
  then show ?thesis
    using assms(2)
    unfolding dispose_eq[OF assms(1) False]
    by (auto simp: callback_inv_def callbacks_append nth_list_update less_Suc_eq)
qed

lemma callback_inv_resume_process:
  assumes "watcher_inv w" "callback_inv w"
    and "k < length (tasks w)" "tasks w ! k = AwaitProcess d st"
  shows "callback_inv (resume_process k d st proc w)"
proof -
  note p = pending_process[OF assms(1,3,4)]
  from assms(2,3,4) have ev: "even (length (callbacks (trace w)))"
    by (auto simp: callback_inv_def)
  from assms(1,3) have st: "isStarted w"
    by (auto simp: watcher_inv_def)
  from assms(1) have ret: "\<forall>j < length (connections w). tasks w ! j = Returned"
    by (simp add: watcher_inv_def)
  show ?thesis
    using assms(2) p ev st ret
    by (auto simp: callback_inv_def resume_process_eq after_loop_None_eq after_loop_Some_eq
        callbacks_append alternating_snoc nth_append nth_list_update less_Suc_eq
        split: option.split)
qed

lemma callback_inv_resume_sleep:
  assumes "watcher_inv w" "callback_inv w"
    and "k < length (tasks w)" "tasks w ! k = AwaitSleep d"
  shows "callback_inv (resume_sleep k d w)"
proof -
  from assms(2,3,4) have ev: "even (length (callbacks (trace w)))"
    by (auto simp: callback_inv_def)
  from assms(1,3) have st: "isStarted w"
    by (auto simp: watcher_inv_def)
  show ?thesis
    using assms(2) ev st
    by (auto simp: callback_inv_def resume_sleep_def attempt_eq callbacks_append)
qed

lemma callback_inv_connection_end:
  assumes "watcher_inv w" "callback_inv w"
  shows "callback_inv (connection_end c w)"
proof (cases "c < length (connections w) \<and> \<not> c_ended (connections w ! c)")
  case False
  with assms show ?thesis by (simp add: connection_end_ended)
next
  case True
  then have c: "c < length (connections w)" "\<not> c_ended (connections w ! c)" by auto
  note l = live_connection[OF assms(1) c]
  from assms(2) c have od: "odd (length (callbacks (trace w)))"
    by (auto simp: callback_inv_def)
  have others: "c_ended (connections w ! i)" if "i < length (connections w)" "i \<noteq> c" for i
    using that assms(1) l(1,2) by (auto simp: watcher_inv_def)
  from assms(1) l(2) c have st: "isStarted w"
    by (auto simp: watcher_inv_def)
  show ?thesis
    unfolding connection_end_live[OF assms(1) c]
    using assms(2) od others st c(1)
    by (auto simp: callback_inv_def willDispose_handler_eq callbacks_append alternating_snoc
        nth_list_update)
qed

lemma callback_inv_step:
  "watcher_inv w \<Longrightarrow> callback_inv w \<Longrightarrow> callback_inv (step w e)"
  by (cases e)
     (auto simp: callback_inv_start callback_inv_dispose callback_inv_resume_process
        callback_inv_resume_sleep callback_inv_connection_end split: task.split)

lemma callback_inv_foldl:
  "watcher_inv w \<Longrightarrow> callback_inv w \<Longrightarrow> callback_inv (foldl step w evs)"
  by (induction evs arbitrary: w) (auto simp: inv_step callback_inv_step)

lemma callback_inv_run: "callback_inv (run clk evs)"
  unfolding run_def
  by (rule callback_inv_foldl[OF inv_constructor])
     (simp add: callback_inv_def constructor_def)


lemma alternating_adjacent:
  "alternating b xs \<Longrightarrow> Suc i < length xs \<Longrightarrow> (xs ! i = None) \<noteq> (xs ! Suc i = None)"
proof (induction xs arbitrary: b i)
  case Nil
  then show ?case by simp
next
  case (Cons x xs)
  show ?case
  proof (cases i)
    case 0
    with Cons.prems show ?thesis by (cases xs) auto
  next
    case (Suc j)
    with Cons.prems Cons.IH[of "\<not> b" j] show ?thesis by simp
  qed
qed

lemma alternating_first: "alternating True xs \<Longrightarrow> xs \<noteq> [] \<Longrightarrow> hd xs \<noteq> None"
  by (cases xs) auto

lemma connection_callback_step:
  assumes "watcher_inv w" "Some c \<in> set (callbacks (new_effects w e))"
  shows "\<exists>k p. e = Process_resolved k (Some p)
           \<and> new_effects w e = [Factory p, Callback (Some c)]
           \<and> c = length (connections w)"
proof (cases e)
  case Call_start
  with assms show ?thesis by (simp add: effects_start split: if_splits)
next
  case Call_dispose
  with assms show ?thesis by (simp add: effects_dispose[OF assms(1)] split: if_splits)
next
  case (Process_resolved k proc)
  with assms(2) show ?thesis
    by (auto simp: effects_process split: if_splits task.splits option.splits)
next
  case (Sleep_resolved k)
  with assms show ?thesis by (simp add: effects_sleep split: if_splits task.splits)
next
  case (Connection_ends c)
  with assms show ?thesis by (simp add: effects_ends[OF assms(1)] split: if_splits)
qed

subsection \<open>The counter, and the end of supervision\<close>

lemma connects_append: "connects (xs @ ys) = connects xs @ connects ys"
  by (induction xs rule: connects.induct) simp_all

lemma factory_calls_append: "factory_calls (xs @ ys) = factory_calls xs @ factory_calls ys"
  by (induction xs rule: factory_calls.induct) simp_all

lemma counter_step:
  assumes "watcher_inv w"
  shows "consecutiveUnhealthyConnections (step w e) =
     (case e of
        Connection_ends c \<Rightarrow>
          (if c < length (connections w) \<and> \<not> c_ended (connections w ! c)
           then (if clock w (reads w) - l_connectionStartTime (listeners w ! c)
                      < IDE_CONNECTION_HEALTHY_THRESHOLD_MS
                 then consecutiveUnhealthyConnections w + 1 else 0)
           else consecutiveUnhealthyConnections w)
      | _ \<Rightarrow> consecutiveUnhealthyConnections w)"
proof (cases e)
  case Call_start
  then show ?thesis by (simp add: start_def makeIDEConnection_eq)
next
  case Call_dispose
  then show ?thesis
    by (cases "isDisposed w") (simp_all add: dispose_disposed dispose_eq[OF assms])
next
  case (Process_resolved k proc)
  then show ?thesis
    by (simp add: resume_process_eq after_loop_None_eq after_loop_Some_eq
        split: task.split option.split)
next
  case (Sleep_resolved k)
  then show ?thesis
    by (simp add: resume_sleep_def attempt_eq split: task.split)
next
  case (Connection_ends c)
  with step_Connection_ends[OF assms, of c] show ?thesis
    by (simp add: willDispose_handler_eq)
qed

lemma counter_kept:
  "watcher_inv w \<Longrightarrow> list_all no_termination evs \<Longrightarrow>
   consecutiveUnhealthyConnections (foldl step w evs) = consecutiveUnhealthyConnections w"
proof (induction evs arbitrary: w)
  case Nil
  then show ?case by simp
next
  case (Cons e evs)
  from Cons.prems counter_step[of w e] have "consecutiveUnhealthyConnections (step w e) =
      consecutiveUnhealthyConnections w"
    by (cases e) simp_all
  with Cons.IH[of "step w e"] Cons.prems show ?case
    by (simp add: inv_step)
qed

lemma supervision_over_step:
  assumes "watcher_inv w" "supervision_over w"
  shows "supervision_over (step w e)"
    and "connects (new_effects w e) = []"
    and "callbacks (new_effects w e) = []"
    and "factory_calls (new_effects w e) = []"
    and "tasks (step w e) = tasks w"
proof -
  from assms(2) have st: "isStarted w"
    and t: "\<forall>k < length (tasks w). tasks w ! k = Returned"
    and c: "\<forall>i < length (connections w). c_ended (connections w ! i)"
    by (simp_all add: supervision_over_def list_all_length)
  have ended: "\<not> (i < length (connections w) \<and> \<not> c_ended (connections w ! i))" for i
    using c by auto
  have eq: "step w e = w \<or> e = Call_dispose"
    using st t ended
    by (cases e) (auto simp: start_def connection_end_ended split: task.split)
  show "tasks (step w e) = tasks w"
    using eq by (cases "isDisposed w") (auto simp: dispose_disposed dispose_eq[OF assms(1)])
  show "supervision_over (step w e)"
    using eq assms(2)
    by (cases "isDisposed w"; cases "connections w = []")
       (auto simp: dispose_disposed dispose_eq[OF assms(1)] supervision_over_def list_all_length
          nth_list_update)
  have ne: "new_effects w e = []
      \<or> new_effects w e = [Subscription_dispose (length (connections w) - 1),
                             Connection_dispose (length (connections w) - 1)]"
  proof (cases "e = Call_dispose")
    case True
    then show ?thesis by (simp add: effects_dispose[OF assms(1)])
  next
    case False
    with eq have "step w e = w" by simp
    then show ?thesis by (simp add: new_effects_def)
  qed
  from ne show "connects (new_effects w e) = []" by auto
  from ne show "callbacks (new_effects w e) = []" by auto
  from ne show "factory_calls (new_effects w e) = []" by auto
qed

lemma supervision_over_foldl:
  "watcher_inv w \<Longrightarrow> supervision_over w \<Longrightarrow>
     supervision_over (foldl step w evs)
   \<and> connects (trace (foldl step w evs)) = connects (trace w)
   \<and> callbacks (trace (foldl step w evs)) = callbacks (trace w)
   \<and> factory_calls (trace (foldl step w evs)) = factory_calls (trace w)
   \<and> tasks (foldl step w evs) = tasks w"
proof (induction evs arbitrary: w)
  case Nil
  then show ?case by simp
next
  case (Cons e evs)
  note s = supervision_over_step[OF Cons.prems, of e]
  from Cons.IH[OF inv_step[OF Cons.prems(1)] s(1)] s trace_step[OF Cons.prems(1), of e]
  show ?case
    by (simp add: connects_append callbacks_append factory_calls_append)
qed

lemma run_cons_snoc: "run clk (evs @ e # evs') = foldl step (step (run clk evs) e) evs'"
  by (simp add: run_def)

lemma counter_at_termination:
  assumes "watcher_inv w" "alive w c"
  shows "consecutiveUnhealthyConnections (step w (Connection_ends c)) =
     (if alive_time w c < IDE_CONNECTION_HEALTHY_THRESHOLD_MS
      then consecutiveUnhealthyConnections w + 1 else 0)"
  using counter_step[OF assms(1), of "Connection_ends c"] assms(2)
  by (simp add: alive_def alive_time_def)

lemma counter_increase:
  assumes "watcher_inv w"
    and "consecutiveUnhealthyConnections w < consecutiveUnhealthyConnections (step w e)"
  shows "\<exists>c. e = Connection_ends c \<and> alive w c
           \<and> alive_time w c < IDE_CONNECTION_HEALTHY_THRESHOLD_MS
           \<and> consecutiveUnhealthyConnections (step w e) = consecutiveUnhealthyConnections w + 1"
proof -
  from assms(1) have nn: "0 \<le> consecutiveUnhealthyConnections w"
    by (simp add: watcher_inv_def)
  from counter_step[OF assms(1), of e] assms(2) nn show ?thesis
    by (cases e) (auto simp: alive_def alive_time_def split: if_splits)
qed

lemma supervision_over_give_up:
  assumes "watcher_inv w" "alive w c"
    and "alive_time w c < IDE_CONNECTION_HEALTHY_THRESHOLD_MS"
    and "consecutiveUnhealthyConnections w + 1 = MAX_UNHEALTHY_CONNECTIONS"
  shows "supervision_over (step w (Connection_ends c))"
    and "tasks (step w (Connection_ends c)) = tasks w"
proof -
  from assms(2) have c: "c < length (connections w)" "\<not> c_ended (connections w ! c)"
    by (simp_all add: alive_def)
  note l = live_connection[OF assms(1) c]
  from assms(1) l(2) c have st: "isStarted w"
    by (auto simp: watcher_inv_def)
  from assms(1) l(2) have t: "\<forall>k < length (tasks w). tasks w ! k = Returned"
    by (auto simp: watcher_inv_def)
  have others: "c_ended (connections w ! i)" if "i < length (connections w)" "i \<noteq> c" for i
    using that assms(1) l(1,2) by (auto simp: watcher_inv_def)
  from assms(3,4) have e: "step w (Connection_ends c) =
      (w\<lparr>connections := (connections w)[c := (connections w ! c)\<lparr>c_ended := True\<rparr>]\<rparr>)
       \<lparr>reads := Suc (reads w),
        consecutiveUnhealthyConnections := consecutiveUnhealthyConnections w + 1,
        trace := trace w @ [Callback None, Log_error Giving_up_too_many_unhealthy]\<rparr>"
    using step_Connection_ends[OF assms(1), of c] c
    by (simp add: willDispose_handler_eq alive_time_def)
  show "tasks (step w (Connection_ends c)) = tasks w"
    unfolding e by simp
  show "supervision_over (step w (Connection_ends c))"
    unfolding e using st t others c(1)
    by (auto simp: supervision_over_def list_all_length nth_list_update)
qed

subsection \<open>Runs without a process handle\<close>

lemma absent_inv_step:
  assumes "watcher_inv w" "absent_inv clk w" "no_handle e"
  shows "absent_inv clk (step w e)"
proof (cases e)
  case Call_start
  with assms(2) show ?thesis
    by (auto simp: absent_inv_def start_def makeIDEConnection_eq callbacks_append
        factory_calls_append)
next
  case Call_dispose
  with assms(2) show ?thesis
    by (cases "isDisposed w") (auto simp: dispose_disposed dispose_eq[OF assms(1)] absent_inv_def)
next
  case (Process_resolved k proc)
  with assms(3) have p: "proc = None" by (cases proc) auto
  from assms(2) have one: "length (tasks w) \<le> 1"
    by (cases "isStarted w") (auto simp: absent_inv_def)
  show ?thesis
  proof (cases "k < length (tasks w)")
    case False
    with Process_resolved assms(2) show ?thesis by simp
  next
    case True
    with one obtain t where t: "tasks w = [t]" "k = 0"
      by (cases "tasks w") auto
    with assms(2) Process_resolved p show ?thesis
      by (cases t)
         (auto simp: absent_inv_def resume_process_eq after_loop_None_eq callbacks_append
            factory_calls_append)
  qed
next
  case (Sleep_resolved k)
  from assms(2) have one: "length (tasks w) \<le> 1"
    by (cases "isStarted w") (auto simp: absent_inv_def)
  show ?thesis
  proof (cases "k < length (tasks w)")
    case False
    with Sleep_resolved assms(2) show ?thesis by simp
  next
    case True
    with one obtain t where t: "tasks w = [t]" "k = 0"
      by (cases "tasks w") auto
    with assms(2) Sleep_resolved show ?thesis
      by (cases t)
         (auto simp: absent_inv_def resume_sleep_def attempt_eq callbacks_append
            factory_calls_append)
  qed
next
  case (Connection_ends c)
  with assms(2) show ?thesis
    by (simp add: absent_inv_def connection_end_ended)
qed

lemma absent_inv_foldl:
  "watcher_inv w \<Longrightarrow> absent_inv clk w \<Longrightarrow> list_all no_handle evs \<Longrightarrow>
   absent_inv clk (foldl step w evs)"
  by (induction evs arbitrary: w) (auto simp: inv_step absent_inv_step)

lemma absent_inv_run: "list_all no_handle evs \<Longrightarrow> absent_inv clk (run clk evs)"
  unfolding run_def
  by (rule absent_inv_foldl[OF inv_constructor])
     (simp_all add: absent_inv_def constructor_def)

lemma supervision_over_timeout:
  assumes "absent_inv clk w" "tasks w = [AwaitProcess d st]" "\<not> isDisposed w"
    and "d < clock w (reads w)"
  shows "step w (Process_resolved 0 None) =
           w\<lparr>reads := Suc (reads w),
             trace := trace w @ [Log_error Giving_up_failed_too_many_times],
             tasks := [Returned]\<rparr>"
    and "supervision_over (step w (Process_resolved 0 None))"
proof -
  from assms(1,2) have st: "isStarted w" "connections w = []"
    by (auto simp: absent_inv_def)
  show e: "step w (Process_resolved 0 None) =
           w\<lparr>reads := Suc (reads w),
             trace := trace w @ [Log_error Giving_up_failed_too_many_times],
             tasks := [Returned]\<rparr>"
    using assms(2,3,4) by (simp add: resume_process_eq after_loop_None_eq)
  show "supervision_over (step w (Process_resolved 0 None))"
    unfolding e using st by (simp add: supervision_over_def)
qed

lemma absent_cycle_ends:
  assumes "absent_inv clk w" "isStarted w"
    and "\<forall>n \<ge> reads w. clk 0 + IDE_CONNECTION_MAX_WAIT_MS < clk n"
  shows "tasks (foldl step w [Sleep_resolved 0, Process_resolved 0 None]) = [Returned]"
proof -
  from assms(1,2) have "length (tasks w) = 1"
    and d: "list_all (deadline_is (clk 0 + IDE_CONNECTION_MAX_WAIT_MS)) (tasks w)"
    and c: "clock w = clk"
    by (simp_all add: absent_inv_def)
  then obtain t where t: "tasks w = [t]"
    by (cases "tasks w") auto
  from assms(3) have late: "clk 0 + IDE_CONNECTION_MAX_WAIT_MS < clk (reads w)"
    "clk 0 + IDE_CONNECTION_MAX_WAIT_MS < clk (Suc (reads w))"
    by simp_all
  show ?thesis
  proof (cases t)
    case (AwaitProcess e st)
    with t d c late show ?thesis
      by (simp add: resume_process_eq after_loop_None_eq)
  next
    case (AwaitSleep e)
    with t d c late show ?thesis
      by (simp add: resume_sleep_def attempt_eq resume_process_eq after_loop_None_eq)
  next
    case Returned
    with t show ?thesis by simp
  qed
qed

section \<open>The claims\<close>

subsection \<open>C1: giving up after too many unhealthy connections\<close>

text \<open>
  C1. In every state a run of the watcher reaches, let a connection alive until then
  end with an alive time strictly below the healthy threshold (10000 ms). Then
  \<^verbatim>\<open>_consecutiveUnhealthyConnections\<close> goes up by one and does not exceed the limit (20).
  While it stays below the limit the handler starts a new acquisition cycle with one
  request to the process source. When it reaches the limit the handler only passes the
  absence to the callback and logs that it gives up: no invocation of
  \<^verbatim>\<open>_makeIDEConnection\<close> is added, supervision is over, and whatever events follow, no
  request goes to the process source and no invocation is added any more.
\<close>

theorem unhealthy_streak_gives_up:
  "alive (run clk evs) c
   \<and> alive_time (run clk evs) c < IDE_CONNECTION_HEALTHY_THRESHOLD_MS \<longrightarrow>
     consecutiveUnhealthyConnections (step (run clk evs) (Connection_ends c)) =
       consecutiveUnhealthyConnections (run clk evs) + 1
   \<and> consecutiveUnhealthyConnections (step (run clk evs) (Connection_ends c))
       \<le> MAX_UNHEALTHY_CONNECTIONS
   \<and> (consecutiveUnhealthyConnections (run clk evs) + 1 < MAX_UNHEALTHY_CONNECTIONS \<longrightarrow>
        new_effects (run clk evs) (Connection_ends c) =
          [Callback None, Log_info Attempting_to_start,
           Process_connect (length (tasks (run clk evs)))])
   \<and> (consecutiveUnhealthyConnections (run clk evs) + 1 = MAX_UNHEALTHY_CONNECTIONS \<longrightarrow>
        new_effects (run clk evs) (Connection_ends c) =
          [Callback None, Log_error Giving_up_too_many_unhealthy]
      \<and> tasks (step (run clk evs) (Connection_ends c)) = tasks (run clk evs)
      \<and> supervision_over (step (run clk evs) (Connection_ends c))
      \<and> (\<forall>evs'. connects (trace (run clk (evs @ Connection_ends c # evs'))) =
                    connects (trace (run clk evs))
                \<and> tasks (run clk (evs @ Connection_ends c # evs')) = tasks (run clk evs)))"
proof (intro impI, elim conjE)
  let ?w = "run clk evs"
  let ?v = "step ?w (Connection_ends c)"
  assume h: "alive ?w c" "alive_time ?w c < IDE_CONNECTION_HEALTHY_THRESHOLD_MS"
  have i: "watcher_inv ?w" and j: "watcher_inv ?v"
    by (rule inv_run, rule inv_step[OF inv_run])
  from h have c: "c < length (connections ?w) \<and> \<not> c_ended (connections ?w ! c)"
    by (simp add: alive_def)
  have a: "consecutiveUnhealthyConnections ?v = consecutiveUnhealthyConnections ?w + 1"
    using counter_at_termination[OF i h(1)] h(2) by simp
  from j have b: "consecutiveUnhealthyConnections ?v \<le> MAX_UNHEALTHY_CONNECTIONS"
    by (simp add: watcher_inv_def)
  have d: "consecutiveUnhealthyConnections ?w + 1 < MAX_UNHEALTHY_CONNECTIONS \<Longrightarrow>
        new_effects ?w (Connection_ends c) =
          [Callback None, Log_info Attempting_to_start, Process_connect (length (tasks ?w))]"
    using c by (simp add: effects_ends[OF i])
  have e: "new_effects ?w (Connection_ends c) =
          [Callback None, Log_error Giving_up_too_many_unhealthy]
      \<and> tasks ?v = tasks ?w
      \<and> supervision_over ?v
      \<and> (\<forall>evs'. connects (trace (run clk (evs @ Connection_ends c # evs'))) =
                    connects (trace ?w)
                \<and> tasks (run clk (evs @ Connection_ends c # evs')) = tasks ?w)"
    if g: "consecutiveUnhealthyConnections ?w + 1 = MAX_UNHEALTHY_CONNECTIONS"
  proof -
    have e1: "new_effects ?w (Connection_ends c) =
          [Callback None, Log_error Giving_up_too_many_unhealthy]"
      using c h(2) g by (simp add: effects_ends[OF i] alive_time_def)
    note s = supervision_over_give_up[OF i h g]
    have "connects (trace ?v) = connects (trace ?w)"
      using trace_step[OF i, of "Connection_ends c"] e1 by (simp add: connects_append)
    with supervision_over_foldl[OF j s(1)] s(2)
    have "connects (trace (run clk (evs @ Connection_ends c # evs'))) = connects (trace ?w)
        \<and> tasks (run clk (evs @ Connection_ends c # evs')) = tasks ?w" for evs'
      by (simp add: run_cons_snoc)
    with e1 s show ?thesis by blast
  qed
  from a b d e
  show "consecutiveUnhealthyConnections ?v = consecutiveUnhealthyConnections ?w + 1
   \<and> consecutiveUnhealthyConnections ?v \<le> MAX_UNHEALTHY_CONNECTIONS
   \<and> (consecutiveUnhealthyConnections ?w + 1 < MAX_UNHEALTHY_CONNECTIONS \<longrightarrow>
        new_effects ?w (Connection_ends c) =
          [Callback None, Log_info Attempting_to_start, Process_connect (length (tasks ?w))])
   \<and> (consecutiveUnhealthyConnections ?w + 1 = MAX_UNHEALTHY_CONNECTIONS \<longrightarrow>
        new_effects ?w (Connection_ends c) =
          [Callback None, Log_error Giving_up_too_many_unhealthy]
      \<and> tasks ?v = tasks ?w
      \<and> supervision_over ?v
      \<and> (\<forall>evs'. connects (trace (run clk (evs @ Connection_ends c # evs'))) =
                    connects (trace ?w)
                \<and> tasks (run clk (evs @ Connection_ends c # evs')) = tasks ?w))"
    by blast
qed

theorem unhealthy_streak_gives_up_witness:
  "consecutiveUnhealthyConnections (run (\<lambda>n. 0) (crash_loop 1 @ [Process_resolved 1 (Some 1)])) = 1
   \<and> alive (run (\<lambda>n. 0) (crash_loop 1 @ [Process_resolved 1 (Some 1)])) 1
   \<and> new_effects (run (\<lambda>n. 0) (crash_loop 1 @ [Process_resolved 1 (Some 1)])) (Connection_ends 1) =
       [Callback None, Log_info Attempting_to_start, Process_connect 2]
   \<and> consecutiveUnhealthyConnections
       (run (\<lambda>n. 0) (crash_loop 19 @ [Process_resolved 19 (Some 19)])) = 19
   \<and> alive (run (\<lambda>n. 0) (crash_loop 19 @ [Process_resolved 19 (Some 19)])) 19
   \<and> alive_time (run (\<lambda>n. 0) (crash_loop 19 @ [Process_resolved 19 (Some 19)])) 19 = 0
   \<and> consecutiveUnhealthyConnections
       (step (run (\<lambda>n. 0) (crash_loop 19 @ [Process_resolved 19 (Some 19)])) (Connection_ends 19)) = 20
   \<and> new_effects (run (\<lambda>n. 0) (crash_loop 19 @ [Process_resolved 19 (Some 19)]))
        (Connection_ends 19) = [Callback None, Log_error Giving_up_too_many_unhealthy]
   \<and> length (connects (trace (run (\<lambda>n. 0) (crash_loop 19 @ [Process_resolved 19 (Some 19)])))) = 20
   \<and> length (connects (trace (run (\<lambda>n. 0) (crash_loop 19 @ [Process_resolved 19 (Some 19)]
        @ Connection_ends 19 # [Call_start, Process_resolved 20 (Some 20), Sleep_resolved 20,
                                Connection_ends 19])))) = 20"
proof -
  let ?clk = "\<lambda>n::nat. 0::int"
  let ?e1 = "crash_loop 1 @ [Process_resolved 1 (Some 1)]"
  let ?e19 = "crash_loop 19 @ [Process_resolved 19 (Some 19)]"
  have a: "consecutiveUnhealthyConnections (run ?clk ?e1) = 1"
    "alive (run ?clk ?e1) 1" "alive_time (run ?clk ?e1) 1 = 0"
    "length (tasks (run ?clk ?e1)) = 2"
    by code_simp+
  have b: "consecutiveUnhealthyConnections (run ?clk ?e19) = 19"
    "alive (run ?clk ?e19) 19" "alive_time (run ?clk ?e19) 19 = 0"
    "length (connects (trace (run ?clk ?e19))) = 20"
    by code_simp+
  from unhealthy_streak_gives_up [of ?clk ?e1 1] a
  have x: "new_effects (run ?clk ?e1) (Connection_ends 1) =
       [Callback None, Log_info Attempting_to_start, Process_connect 2]"
    by (simp add: IDE_CONNECTION_HEALTHY_THRESHOLD_MS_def MAX_UNHEALTHY_CONNECTIONS_def)
  from unhealthy_streak_gives_up [of ?clk ?e19 19] b
  have y: "consecutiveUnhealthyConnections (step (run ?clk ?e19) (Connection_ends 19)) = 20
     \<and> new_effects (run ?clk ?e19) (Connection_ends 19) =
          [Callback None, Log_error Giving_up_too_many_unhealthy]
     \<and> (\<forall>evs'. connects (trace (run ?clk (?e19 @ Connection_ends 19 # evs'))) =
                    connects (trace (run ?clk ?e19)))"
    by (simp add: IDE_CONNECTION_HEALTHY_THRESHOLD_MS_def MAX_UNHEALTHY_CONNECTIONS_def)
  then have z: "connects (trace (run ?clk (?e19 @ Connection_ends 19 #
        [Call_start, Process_resolved 20 (Some 20), Sleep_resolved 20, Connection_ends 19]))) =
        connects (trace (run ?clk ?e19))"
    by blast
  from a b x y z show ?thesis by simp
qed

subsection \<open>C2: the throttling wait\<close>

text \<open>
  C2. Let an invocation be suspended at the process promise, the watcher not disposed,
  and let the promise resolve with an absence at a time not after the deadline. With
  \<open>elapsed\<close> the time read then minus \<^verbatim>\<open>attemptStartTime\<close>, the watcher sleeps exactly
  \<open>max 0 (minimum interval - elapsed)\<close>: when that is positive it calls \<^verbatim>\<open>_sleep\<close> once
  with that duration, makes no request before the sleep resolves and one request when it
  does; when it is zero it does not sleep and makes the next request in the same step.
\<close>

theorem retry_waits_additional:
  assumes "k < length (tasks w)"
    and "tasks w ! k = AwaitProcess endTimeMS attemptStartTime"
    and "\<not> isDisposed w"
    and "clock w (reads w) \<le> endTimeMS"
  shows "sleeps (new_effects w (Process_resolved k None)) =
           (if additional_wait (clock w (reads w) - attemptStartTime) > 0
            then [additional_wait (clock w (reads w) - attemptStartTime)] else [])
       \<and> (additional_wait (clock w (reads w) - attemptStartTime) > 0 \<longrightarrow>
            connects (new_effects w (Process_resolved k None)) = []
          \<and> tasks (step w (Process_resolved k None)) ! k = AwaitSleep endTimeMS
          \<and> new_effects (step w (Process_resolved k None)) (Sleep_resolved k) =
              [Process_connect k])
       \<and> (additional_wait (clock w (reads w) - attemptStartTime) = 0 \<longrightarrow>
            connects (new_effects w (Process_resolved k None)) = [k]
          \<and> tasks (step w (Process_resolved k None)) ! k =
              AwaitProcess endTimeMS (clock w (Suc (reads w))))"
  using assms
  by (simp add: effects_process effects_sleep resume_process_eq additional_wait_def)

theorem retry_waits_additional_witness:
  "sleeps (new_effects (run (\<lambda>n. if n < 2 then 0 else 200) [Call_start])
             (Process_resolved 0 None)) = [800]
   \<and> connects (new_effects (run (\<lambda>n. if n < 2 then 0 else 200) [Call_start])
             (Process_resolved 0 None)) = []
   \<and> sleeps (new_effects (run (\<lambda>n. if n < 2 then 0 else 1500) [Call_start])
             (Process_resolved 0 None)) = []
   \<and> connects (new_effects (run (\<lambda>n. if n < 2 then 0 else 1500) [Call_start])
             (Process_resolved 0 None)) = [0]"
proof -
  have a: "0 < length (tasks (run (\<lambda>n. if n < 2 then 0 else 200) [Call_start]))"
    "tasks (run (\<lambda>n. if n < 2 then 0 else 200) [Call_start]) ! 0 = AwaitProcess 1200000 0"
    "\<not> isDisposed (run (\<lambda>n. if n < 2 then 0 else 200) [Call_start])"
    "clock (run (\<lambda>n. if n < 2 then 0 else 200) [Call_start])
       (reads (run (\<lambda>n. if n < 2 then 0 else 200) [Call_start])) = 200"
    by (simp_all add: run_started)
  have b: "0 < length (tasks (run (\<lambda>n. if n < 2 then 0 else 1500) [Call_start]))"
    "tasks (run (\<lambda>n. if n < 2 then 0 else 1500) [Call_start]) ! 0 = AwaitProcess 1200000 0"
    "\<not> isDisposed (run (\<lambda>n. if n < 2 then 0 else 1500) [Call_start])"
    "clock (run (\<lambda>n. if n < 2 then 0 else 1500) [Call_start])
       (reads (run (\<lambda>n. if n < 2 then 0 else 1500) [Call_start])) = 1500"
    by (simp_all add: run_started)
  have c: "additional_wait (200 - 0) = 800" "additional_wait (1500 - 0) = 0"
    by (simp_all add: additional_wait_def IDE_CONNECTION_MIN_INTERVAL_MS_def)
  from retry_waits_additional [OF a(1) a(2) a(3)] a(4) c(1)
  have x: "sleeps (new_effects (run (\<lambda>n. if n < 2 then 0 else 200) [Call_start])
             (Process_resolved 0 None)) = [800]
     \<and> connects (new_effects (run (\<lambda>n. if n < 2 then 0 else 200) [Call_start])
             (Process_resolved 0 None)) = []"
    by simp
  from retry_waits_additional [OF b(1) b(2) b(3)] b(4) c(2)
  have y: "sleeps (new_effects (run (\<lambda>n. if n < 2 then 0 else 1500) [Call_start])
             (Process_resolved 0 None)) = []
     \<and> connects (new_effects (run (\<lambda>n. if n < 2 then 0 else 1500) [Call_start])
             (Process_resolved 0 None)) = [0]"
    by simp
  from x y show ?thesis by simp
qed

subsection \<open>C3: a process source that only yields absences\<close>

text \<open>
  C3. The first call of \<^verbatim>\<open>start()\<close> returns the promise of invocation 0. In every run in
  which the process source has yielded no handle: the callback and the connection factory
  have not been called; once the watcher is started there is exactly one invocation, and
  while it is suspended its deadline is the first reading of the clock, taken when the
  cycle started, plus 1200000 ms. When that invocation waits for the process source, the
  watcher is not disposed and the absence arrives at a time beyond the deadline, the step
  only logs that it gives up, the invocation returns, so the promise that \<^verbatim>\<open>start()\<close>
  returned is resolved, and supervision is over: whatever events follow, no request
  goes to the process source and the callback is not invoked. And when the watcher is
  started and every reading of the clock from now on is beyond the deadline, the end of
  the sleep, if the invocation sleeps, and one more absence make the invocation return.
\<close>

theorem absent_source_times_out:
  "fst (start (constructor clk)) = Promise_of 0
   \<and> (list_all no_handle evs \<longrightarrow>
        callbacks (trace (run clk evs)) = []
      \<and> factory_calls (trace (run clk evs)) = []
      \<and> (isStarted (run clk evs) \<longrightarrow>
           (\<exists>t. tasks (run clk evs) = [t]
              \<and> deadline_is (clk 0 + IDE_CONNECTION_MAX_WAIT_MS) t))
      \<and> (\<forall>st. tasks (run clk evs) = [AwaitProcess (clk 0 + IDE_CONNECTION_MAX_WAIT_MS) st]
              \<and> \<not> isDisposed (run clk evs)
              \<and> clk 0 + IDE_CONNECTION_MAX_WAIT_MS < clk (reads (run clk evs)) \<longrightarrow>
              new_effects (run clk evs) (Process_resolved 0 None) =
                [Log_error Giving_up_failed_too_many_times]
            \<and> tasks (step (run clk evs) (Process_resolved 0 None)) = [Returned]
            \<and> resolved (Promise_of 0) (step (run clk evs) (Process_resolved 0 None))
            \<and> supervision_over (step (run clk evs) (Process_resolved 0 None))
            \<and> (\<forall>evs'. connects (trace (run clk (evs @ Process_resolved 0 None # evs'))) =
                          connects (trace (run clk evs))
                      \<and> callbacks (trace (run clk (evs @ Process_resolved 0 None # evs'))) = []))
      \<and> (isStarted (run clk evs)
           \<and> (\<forall>n \<ge> reads (run clk evs). clk 0 + IDE_CONNECTION_MAX_WAIT_MS < clk n) \<longrightarrow>
           tasks (run clk (evs @ [Sleep_resolved 0, Process_resolved 0 None])) = [Returned]
         \<and> resolved (Promise_of 0)
               (run clk (evs @ [Sleep_resolved 0, Process_resolved 0 None]))))"
proof -
  let ?w = "run clk evs"
  let ?v = "step ?w (Process_resolved 0 None)"
  have p: "fst (start (constructor clk)) = Promise_of 0"
    by (simp add: start_def constructor_def makeIDEConnection_eq)
  have q: "callbacks (trace ?w) = [] \<and> factory_calls (trace ?w) = []
      \<and> (isStarted ?w \<longrightarrow>
           (\<exists>t. tasks ?w = [t] \<and> deadline_is (clk 0 + IDE_CONNECTION_MAX_WAIT_MS) t))
      \<and> (\<forall>st. tasks ?w = [AwaitProcess (clk 0 + IDE_CONNECTION_MAX_WAIT_MS) st]
              \<and> \<not> isDisposed ?w
              \<and> clk 0 + IDE_CONNECTION_MAX_WAIT_MS < clk (reads ?w) \<longrightarrow>
              new_effects ?w (Process_resolved 0 None) =
                [Log_error Giving_up_failed_too_many_times]
            \<and> tasks ?v = [Returned]
            \<and> resolved (Promise_of 0) ?v
            \<and> supervision_over ?v
            \<and> (\<forall>evs'. connects (trace (run clk (evs @ Process_resolved 0 None # evs'))) =
                          connects (trace ?w)
                      \<and> callbacks (trace (run clk (evs @ Process_resolved 0 None # evs'))) = []))
      \<and> (isStarted ?w \<and> (\<forall>n \<ge> reads ?w. clk 0 + IDE_CONNECTION_MAX_WAIT_MS < clk n) \<longrightarrow>
           tasks (run clk (evs @ [Sleep_resolved 0, Process_resolved 0 None])) = [Returned]
         \<and> resolved (Promise_of 0)
               (run clk (evs @ [Sleep_resolved 0, Process_resolved 0 None])))"
    if h: "list_all no_handle evs"
  proof -
    have i: "watcher_inv ?w" and j: "watcher_inv ?v"
      by (rule inv_run, rule inv_step[OF inv_run])
    note a = absent_inv_run[OF h, of clk]
    from a have a1: "callbacks (trace ?w) = []" "factory_calls (trace ?w) = []" "clock ?w = clk"
      by (simp_all add: absent_inv_def)
    have a2: "\<exists>t. tasks ?w = [t] \<and> deadline_is (clk 0 + IDE_CONNECTION_MAX_WAIT_MS) t"
      if "isStarted ?w"
    proof -
      from a that have "length (tasks ?w) = 1"
        and d: "list_all (deadline_is (clk 0 + IDE_CONNECTION_MAX_WAIT_MS)) (tasks ?w)"
        by (simp_all add: absent_inv_def)
      then obtain t where "tasks ?w = [t]"
        by (cases "tasks ?w") auto
      with d show ?thesis by simp
    qed
    have a3: "new_effects ?w (Process_resolved 0 None) =
                [Log_error Giving_up_failed_too_many_times]
            \<and> tasks ?v = [Returned]
            \<and> resolved (Promise_of 0) ?v
            \<and> supervision_over ?v
            \<and> (\<forall>evs'. connects (trace (run clk (evs @ Process_resolved 0 None # evs'))) =
                          connects (trace ?w)
                      \<and> callbacks (trace (run clk (evs @ Process_resolved 0 None # evs'))) = [])"
      if g: "tasks ?w = [AwaitProcess (clk 0 + IDE_CONNECTION_MAX_WAIT_MS) st]"
        "\<not> isDisposed ?w" "clk 0 + IDE_CONNECTION_MAX_WAIT_MS < clk (reads ?w)" for st
    proof -
      from g(3) a1(3) have late: "clk 0 + IDE_CONNECTION_MAX_WAIT_MS < clock ?w (reads ?w)"
        by simp
      note s = supervision_over_timeout[OF a g(1,2) late]
      have e: "new_effects ?w (Process_resolved 0 None) =
                [Log_error Giving_up_failed_too_many_times]"
        using g(1,2) late by (simp add: effects_process)
      have t: "tasks ?v = [Returned]" "resolved (Promise_of 0) ?v"
        unfolding s(1) by simp_all
      have c: "connects (trace ?v) = connects (trace ?w)" "callbacks (trace ?v) = []"
        unfolding s(1) using a1 by (simp_all add: connects_append callbacks_append)
      with supervision_over_foldl[OF j s(2)]
      have "connects (trace (run clk (evs @ Process_resolved 0 None # evs'))) =
              connects (trace ?w)
          \<and> callbacks (trace (run clk (evs @ Process_resolved 0 None # evs'))) = []" for evs'
        by (simp add: run_cons_snoc)
      with e t s(2) show ?thesis by blast
    qed
    have a4: "tasks (run clk (evs @ [Sleep_resolved 0, Process_resolved 0 None])) = [Returned]
         \<and> resolved (Promise_of 0)
               (run clk (evs @ [Sleep_resolved 0, Process_resolved 0 None]))"
      if g: "isStarted ?w" "\<forall>n \<ge> reads ?w. clk 0 + IDE_CONNECTION_MAX_WAIT_MS < clk n"
    proof -
      have "run clk (evs @ [Sleep_resolved 0, Process_resolved 0 None]) =
          foldl step ?w [Sleep_resolved 0, Process_resolved 0 None]"
        by (simp add: run_def)
      with absent_cycle_ends[OF a g] show ?thesis by simp
    qed
    from a1 a2 a3 a4 show ?thesis by blast
  qed
  from p q show ?thesis by blast
qed

theorem absent_source_times_out_witness:
  "list_all no_handle [Call_start, Process_resolved 0 None, Sleep_resolved 0]
   \<and> tasks (run (\<lambda>n. if n < 2 then 0 else if n = 2 then 200 else if n = 3 then 1000 else 1200001)
        [Call_start, Process_resolved 0 None, Sleep_resolved 0]) = [AwaitProcess 1200000 1000]
   \<and> sleeps (trace (run (\<lambda>n. if n < 2 then 0 else if n = 2 then 200 else if n = 3 then 1000 else 1200001)
        [Call_start, Process_resolved 0 None, Sleep_resolved 0])) = [800]
   \<and> new_effects (run (\<lambda>n. if n < 2 then 0 else if n = 2 then 200 else if n = 3 then 1000 else 1200001)
        [Call_start, Process_resolved 0 None, Sleep_resolved 0]) (Process_resolved 0 None) =
        [Log_error Giving_up_failed_too_many_times]
   \<and> resolved (Promise_of 0)
       (step (run (\<lambda>n. if n < 2 then 0 else if n = 2 then 200 else if n = 3 then 1000 else 1200001)
          [Call_start, Process_resolved 0 None, Sleep_resolved 0]) (Process_resolved 0 None))
   \<and> connects (trace (run (\<lambda>n. if n < 2 then 0 else if n = 2 then 200 else if n = 3 then 1000 else 1200001)
        ([Call_start, Process_resolved 0 None, Sleep_resolved 0] @ Process_resolved 0 None #
         [Process_resolved 0 (Some 5), Sleep_resolved 0, Call_start]))) = [0, 0]
   \<and> callbacks (trace (run (\<lambda>n. if n < 2 then 0 else if n = 2 then 200 else if n = 3 then 1000 else 1200001)
        ([Call_start, Process_resolved 0 None, Sleep_resolved 0] @ Process_resolved 0 None #
         [Process_resolved 0 (Some 5), Sleep_resolved 0, Call_start]))) = []
   \<and> tasks (run (\<lambda>n. if n < 2 then 0 else if n = 2 then 200 else if n = 3 then 1000 else 1200001)
        ([Call_start, Process_resolved 0 None, Sleep_resolved 0]
         @ [Sleep_resolved 0, Process_resolved 0 None])) = [Returned]"
proof -
  let ?clk = "\<lambda>n::nat. if n < 2 then 0 else if n = 2 then 200 else if n = 3 then 1000 else (1200001::int)"
  let ?evs = "[Call_start, Process_resolved 0 None, Sleep_resolved 0]"
  have h: "list_all no_handle ?evs"
    by simp
  have a: "tasks (run ?clk ?evs) = [AwaitProcess 1200000 1000]"
    "\<not> isDisposed (run ?clk ?evs)"
    "reads (run ?clk ?evs) = 4"
    "sleeps (trace (run ?clk ?evs)) = [800]"
    "connects (trace (run ?clk ?evs)) = [0, 0]"
    by code_simp+
  have d: "?clk 0 + IDE_CONNECTION_MAX_WAIT_MS = 1200000"
    by (simp add: IDE_CONNECTION_MAX_WAIT_MS_def)
  from absent_source_times_out [of ?clk ?evs] h a d
  have x: "new_effects (run ?clk ?evs) (Process_resolved 0 None) =
                [Log_error Giving_up_failed_too_many_times]
     \<and> resolved (Promise_of 0) (step (run ?clk ?evs) (Process_resolved 0 None))
     \<and> (\<forall>evs'. connects (trace (run ?clk (?evs @ Process_resolved 0 None # evs'))) = [0, 0]
              \<and> callbacks (trace (run ?clk (?evs @ Process_resolved 0 None # evs'))) = [])"
    by simp
  then have y: "connects (trace (run ?clk (?evs @ Process_resolved 0 None #
         [Process_resolved 0 (Some 5), Sleep_resolved 0, Call_start]))) = [0, 0]
     \<and> callbacks (trace (run ?clk (?evs @ Process_resolved 0 None #
         [Process_resolved 0 (Some 5), Sleep_resolved 0, Call_start]))) = []"
    by blast
  have s: "isStarted (run ?clk ?evs)"
    by code_simp
  have l: "\<forall>n \<ge> reads (run ?clk ?evs). ?clk 0 + IDE_CONNECTION_MAX_WAIT_MS < ?clk n"
    unfolding a(3) d by simp
  from absent_source_times_out [of ?clk ?evs] h s l
  have z: "tasks (run ?clk (?evs @ [Sleep_resolved 0, Process_resolved 0 None])) = [Returned]"
    by blast
  from h a x y z show ?thesis by simp
qed

subsection \<open>C4: what changes the counter\<close>

text \<open>
  C4. In every state a run of the watcher reaches: an event increases
  \<^verbatim>\<open>_consecutiveUnhealthyConnections\<close> only if it is the end of a connection alive until
  then, with an alive time strictly below the healthy threshold, and then by exactly
  one; the end of a connection whose alive time is at or beyond the threshold sets the
  counter to 0; no other event changes it. Hence, when a connection ends at or beyond
  the threshold and, after any events that are not terminations, the next connection
  ends below the threshold, the counter is exactly 1, whatever it was before.
\<close>

theorem counter_follows_terminations:
  "(consecutiveUnhealthyConnections (run clk evs)
      < consecutiveUnhealthyConnections (step (run clk evs) e) \<longrightarrow>
      (\<exists>c. e = Connection_ends c \<and> alive (run clk evs) c
         \<and> alive_time (run clk evs) c < IDE_CONNECTION_HEALTHY_THRESHOLD_MS
         \<and> consecutiveUnhealthyConnections (step (run clk evs) e) =
             consecutiveUnhealthyConnections (run clk evs) + 1))
   \<and> (alive (run clk evs) c \<longrightarrow>
        consecutiveUnhealthyConnections (step (run clk evs) (Connection_ends c)) =
          (if alive_time (run clk evs) c < IDE_CONNECTION_HEALTHY_THRESHOLD_MS
           then consecutiveUnhealthyConnections (run clk evs) + 1 else 0))
   \<and> (no_termination e \<longrightarrow>
        consecutiveUnhealthyConnections (step (run clk evs) e) =
          consecutiveUnhealthyConnections (run clk evs))
   \<and> (alive (run clk evs) c
        \<and> IDE_CONNECTION_HEALTHY_THRESHOLD_MS \<le> alive_time (run clk evs) c
        \<and> list_all no_termination evs'
        \<and> alive (run clk (evs @ Connection_ends c # evs')) c'
        \<and> alive_time (run clk (evs @ Connection_ends c # evs')) c'
             < IDE_CONNECTION_HEALTHY_THRESHOLD_MS \<longrightarrow>
        consecutiveUnhealthyConnections
          (run clk (evs @ Connection_ends c # evs' @ [Connection_ends c'])) = 1)"
proof -
  let ?w = "run clk evs"
  let ?v = "run clk (evs @ Connection_ends c # evs')"
  have i: "watcher_inv ?w" and j: "watcher_inv ?v" and k: "watcher_inv (step ?w (Connection_ends c))"
    by (rule inv_run, rule inv_run, rule inv_step[OF inv_run])
  have a: "consecutiveUnhealthyConnections ?w < consecutiveUnhealthyConnections (step ?w e) \<Longrightarrow>
      \<exists>c. e = Connection_ends c \<and> alive ?w c
         \<and> alive_time ?w c < IDE_CONNECTION_HEALTHY_THRESHOLD_MS
         \<and> consecutiveUnhealthyConnections (step ?w e) = consecutiveUnhealthyConnections ?w + 1"
    by (rule counter_increase[OF i])
  have b: "alive ?w c \<Longrightarrow>
        consecutiveUnhealthyConnections (step ?w (Connection_ends c)) =
          (if alive_time ?w c < IDE_CONNECTION_HEALTHY_THRESHOLD_MS
           then consecutiveUnhealthyConnections ?w + 1 else 0)"
    by (rule counter_at_termination[OF i])
  have d: "no_termination e \<Longrightarrow>
        consecutiveUnhealthyConnections (step ?w e) = consecutiveUnhealthyConnections ?w"
    using counter_step[OF i, of e] by (cases e) simp_all
  have f: "consecutiveUnhealthyConnections
          (run clk (evs @ Connection_ends c # evs' @ [Connection_ends c'])) = 1"
    if h: "alive ?w c" "IDE_CONNECTION_HEALTHY_THRESHOLD_MS \<le> alive_time ?w c"
      "list_all no_termination evs'" "alive ?v c'"
      "alive_time ?v c' < IDE_CONNECTION_HEALTHY_THRESHOLD_MS"
  proof -
    from b h(1,2) have "consecutiveUnhealthyConnections (step ?w (Connection_ends c)) = 0"
      by simp
    with counter_kept[OF k h(3)] have "consecutiveUnhealthyConnections ?v = 0"
      by (simp add: run_cons_snoc)
    with counter_at_termination[OF j h(4)] h(5)
    have "consecutiveUnhealthyConnections (step ?v (Connection_ends c')) = 1"
      by simp
    moreover have "run clk (evs @ Connection_ends c # evs' @ [Connection_ends c']) =
        step ?v (Connection_ends c')"
      by (simp add: run_def)
    ultimately show ?thesis by simp
  qed
  from a b d f show ?thesis by blast
qed

theorem counter_follows_terminations_witness:
  "consecutiveUnhealthyConnections
     (run (\<lambda>n. if n < 14 then 0 else 20000)
        [Call_start, Process_resolved 0 (Some 0), Connection_ends 0,
         Process_resolved 1 (Some 1), Connection_ends 1, Process_resolved 2 (Some 2)]) = 2
   \<and> alive (run (\<lambda>n. if n < 14 then 0 else 20000)
        [Call_start, Process_resolved 0 (Some 0), Connection_ends 0,
         Process_resolved 1 (Some 1), Connection_ends 1, Process_resolved 2 (Some 2)]) 2
   \<and> alive_time (run (\<lambda>n. if n < 14 then 0 else 20000)
        [Call_start, Process_resolved 0 (Some 0), Connection_ends 0,
         Process_resolved 1 (Some 1), Connection_ends 1, Process_resolved 2 (Some 2)]) 2 = 20000
   \<and> consecutiveUnhealthyConnections
     (run (\<lambda>n. if n < 14 then 0 else 20000)
        [Call_start, Process_resolved 0 (Some 0), Connection_ends 0,
         Process_resolved 1 (Some 1), Connection_ends 1, Process_resolved 2 (Some 2),
         Connection_ends 2]) = 0
   \<and> alive_time (run (\<lambda>n. if n < 14 then 0 else 20000)
        [Call_start, Process_resolved 0 (Some 0), Connection_ends 0,
         Process_resolved 1 (Some 1), Connection_ends 1, Process_resolved 2 (Some 2),
         Connection_ends 2, Process_resolved 3 (Some 3)]) 3 = 0
   \<and> consecutiveUnhealthyConnections
     (run (\<lambda>n. if n < 14 then 0 else 20000)
        [Call_start, Process_resolved 0 (Some 0), Connection_ends 0,
         Process_resolved 1 (Some 1), Connection_ends 1, Process_resolved 2 (Some 2),
         Connection_ends 2, Process_resolved 3 (Some 3), Connection_ends 3]) = 1"
proof -
  let ?clk = "\<lambda>n::nat. if n < 14 then 0 else (20000::int)"
  let ?evs = "[Call_start, Process_resolved 0 (Some 0), Connection_ends 0,
         Process_resolved 1 (Some 1), Connection_ends 1, Process_resolved 2 (Some 2)]"
  have p: "consecutiveUnhealthyConnections (run ?clk ?evs) = 2"
    by code_simp
  have h1: "alive (run ?clk ?evs) 2"
    by code_simp
  have h2: "alive_time (run ?clk ?evs) 2 = 20000"
    by code_simp
  have h3: "list_all no_termination [Process_resolved 3 (Some 3)]"
    by simp
  have h4: "alive (run ?clk (?evs @ Connection_ends 2 # [Process_resolved 3 (Some 3)])) 3"
    by code_simp
  have h5: "alive_time (run ?clk (?evs @ Connection_ends 2 # [Process_resolved 3 (Some 3)])) 3 = 0"
    by code_simp
  have s: "run ?clk (?evs @ [Connection_ends 2]) = step (run ?clk ?evs) (Connection_ends 2)"
    by (simp add: run_def)
  note t = counter_follows_terminations
             [of ?clk ?evs "Connection_ends 2" 2 "[Process_resolved 3 (Some 3)]" 3]
  from t h1 h2 s have q: "consecutiveUnhealthyConnections (run ?clk (?evs @ [Connection_ends 2])) = 0"
    by (simp add: IDE_CONNECTION_HEALTHY_THRESHOLD_MS_def)
  from t h1 h2 h3 h4 h5
  have r: "consecutiveUnhealthyConnections
     (run ?clk (?evs @ Connection_ends 2 # [Process_resolved 3 (Some 3)] @ [Connection_ends 3])) = 1"
    by (simp add: IDE_CONNECTION_HEALTHY_THRESHOLD_MS_def)
  from p h1 h2 h5 q r show ?thesis by simp
qed

subsection \<open>C5: after disposal\<close>

text \<open>
  C5 asks that once \<^verbatim>\<open>_isDisposed\<close> is true no new acquisition attempt is started. The
  loop tests \<^verbatim>\<open>_isDisposed\<close> after \<^verbatim>\<open>await processPromise\<close> only, not after
  \<^verbatim>\<open>await this._sleep(...)\<close>. Start the watcher, let the process source yield an absence
  at once (the invocation sleeps 1000 ms), call \<^verbatim>\<open>dispose()\<close> during the sleep: when the
  sleep resolves the watcher is disposed, and the loop makes a new request to the
  process source all the same, the second of the run.
\<close>

theorem attempt_started_after_dispose:
  "isDisposed (run (\<lambda>n. 0) [Call_start, Process_resolved 0 None, Call_dispose])
   \<and> tasks (run (\<lambda>n. 0) [Call_start, Process_resolved 0 None, Call_dispose]) =
       [AwaitSleep 1200000]
   \<and> new_effects (run (\<lambda>n. 0) [Call_start, Process_resolved 0 None, Call_dispose])
        (Sleep_resolved 0) = [Process_connect 0]
   \<and> connects (trace (run (\<lambda>n. 0)
        [Call_start, Process_resolved 0 None, Call_dispose, Sleep_resolved 0])) = [0, 0]
   \<and> tasks (run (\<lambda>n. 0)
        [Call_start, Process_resolved 0 None, Call_dispose, Sleep_resolved 0]) =
       [AwaitProcess 1200000 0]"
proof -
  have "run (\<lambda>n. 0) [Call_start, Process_resolved 0 None, Call_dispose, Sleep_resolved 0] =
        step (run (\<lambda>n. 0) [Call_start, Process_resolved 0 None, Call_dispose]) (Sleep_resolved 0)"
    by (simp add: run_def)
  then show ?thesis
    by (simp add: run_disposed_sleeping effects_sleep resume_sleep_def attempt_eq)
qed

text \<open>
  The rest of C5 holds in every state a run of the watcher reaches: a disposed watcher
  stays disposed, no event makes it invoke the callback or the connection factory, and a
  handle that arrives for a suspended invocation is killed and the invocation returns.
\<close>

lemma disposed_watcher_is_silent:
  "isDisposed (run clk evs) \<longrightarrow>
     isDisposed (step (run clk evs) e)
   \<and> callbacks (new_effects (run clk evs) e) = []
   \<and> factory_calls (new_effects (run clk evs) e) = []
   \<and> (\<forall>k p d st. k < length (tasks (run clk evs)) \<and> tasks (run clk evs) ! k = AwaitProcess d st \<longrightarrow>
         new_effects (run clk evs) (Process_resolved k (Some p)) = [Process_kill p]
       \<and> tasks (step (run clk evs) (Process_resolved k (Some p))) ! k = Returned)"
  using disposed_step[OF inv_run, of clk evs e]
  by (auto simp: effects_process resume_process_eq)

subsection \<open>C6: connections and absences alternate\<close>

text \<open>
  C6. In every run of the watcher, for every clock and every sequence of events: the
  arguments of the successive callback invocations alternate, starting with a
  connection, so that of two invocations in a row exactly one passes an absence and no
  two connections are passed without an absence between them. A step passes a
  connection to the callback only if its event is the arrival of a process handle, and
  then the step consists of the factory call on that handle followed by the callback
  with the connection made.
\<close>

theorem callback_alternates:
  "alternating True (callbacks (trace (run clk evs)))
   \<and> (callbacks (trace (run clk evs)) \<noteq> [] \<longrightarrow> hd (callbacks (trace (run clk evs))) \<noteq> None)
   \<and> (\<forall>i. Suc i < length (callbacks (trace (run clk evs))) \<longrightarrow>
         (callbacks (trace (run clk evs)) ! i = None)
           \<noteq> (callbacks (trace (run clk evs)) ! Suc i = None))
   \<and> (\<forall>c. Some c \<in> set (callbacks (new_effects (run clk evs) e)) \<longrightarrow>
         (\<exists>k p. e = Process_resolved k (Some p)
            \<and> new_effects (run clk evs) e = [Factory p, Callback (Some c)]))"
proof -
  have a: "alternating True (callbacks (trace (run clk evs)))"
    using callback_inv_run[of clk evs] by (simp add: callback_inv_def)
  have b: "\<forall>c. Some c \<in> set (callbacks (new_effects (run clk evs) e)) \<longrightarrow>
         (\<exists>k p. e = Process_resolved k (Some p)
            \<and> new_effects (run clk evs) e = [Factory p, Callback (Some c)])"
    using connection_callback_step[OF inv_run, of _ clk evs e] by blast
  from a b alternating_adjacent[OF a] alternating_first[OF a] show ?thesis
    by blast
qed

theorem callback_alternates_witness:
  "callbacks (trace (run (\<lambda>n. 0) [Call_start, Process_resolved 0 (Some 7), Connection_ends 0,
                                  Process_resolved 1 (Some 8)])) = [Some 0, None, Some 1]
   \<and> alternating True [Some 0, None, Some 1]
   \<and> Some 1 \<in> set (callbacks (new_effects
        (run (\<lambda>n. 0) [Call_start, Process_resolved 0 (Some 7), Connection_ends 0])
        (Process_resolved 1 (Some 8))))
   \<and> new_effects (run (\<lambda>n. 0) [Call_start, Process_resolved 0 (Some 7), Connection_ends 0])
        (Process_resolved 1 (Some 8)) = [Factory 8, Callback (Some 1)]"
proof -
  have c: "callbacks (trace (run (\<lambda>n. 0) [Call_start, Process_resolved 0 (Some 7),
             Connection_ends 0, Process_resolved 1 (Some 8)])) = [Some 0, None, Some 1]"
    unfolding run_reconnected by simp
  have m: "Some 1 \<in> set (callbacks (new_effects
        (run (\<lambda>n. 0) [Call_start, Process_resolved 0 (Some 7), Connection_ends 0])
        (Process_resolved 1 (Some 8))))"
    by (simp add: run_crashed effects_process)
  from callback_alternates [of "\<lambda>n. 0"
         "[Call_start, Process_resolved 0 (Some 7), Connection_ends 0, Process_resolved 1 (Some 8)]"
         Call_start] c
  have x: "alternating True [Some 0, None, Some 1]"
    by simp
  from callback_alternates [of "\<lambda>n. 0"
         "[Call_start, Process_resolved 0 (Some 7), Connection_ends 0]"
         "Process_resolved 1 (Some 8)"] m
  have y: "new_effects (run (\<lambda>n. 0) [Call_start, Process_resolved 0 (Some 7), Connection_ends 0])
        (Process_resolved 1 (Some 8)) = [Factory 8, Callback (Some 1)]"
    by auto
  from c m x y show ?thesis by simp
qed

subsection \<open>C7: \<^verbatim>\<open>start()\<close> is idempotent\<close>

text \<open>
  C7. \<^verbatim>\<open>start()\<close> is idempotent. In any state, a call of \<^verbatim>\<open>start()\<close> that follows another
  returns \<^verbatim>\<open>Promise.resolve()\<close> and changes nothing: no invocation of
  \<^verbatim>\<open>_makeIDEConnection\<close> is added and no request goes to the process source. A call on a
  started watcher does the same. The first call on a watcher not yet started marks it
  started, begins one acquisition cycle (one new invocation, one request to the process
  source) and returns the promise of that invocation.
\<close>

theorem start_idempotent:
  "start (snd (start w)) = (Promise_resolve, snd (start w))
   \<and> (isStarted w \<longrightarrow> start w = (Promise_resolve, w))
   \<and> (\<not> isStarted w \<longrightarrow>
        isStarted (snd (start w))
      \<and> fst (start w) = Promise_of (length (tasks w))
      \<and> length (tasks (snd (start w))) = Suc (length (tasks w))
      \<and> connects (new_effects w Call_start) = [length (tasks w)])
   \<and> connects (new_effects (snd (start w)) Call_start) = []
   \<and> tasks (snd (start (snd (start w)))) = tasks (snd (start w))"
  by (simp add: start_def makeIDEConnection_eq new_effects_def)

theorem start_idempotent_witness:
  "\<not> isStarted (constructor (\<lambda>n. 0))
   \<and> fst (start (constructor (\<lambda>n. 0))) = Promise_of 0
   \<and> tasks (snd (start (constructor (\<lambda>n. 0)))) = [AwaitProcess 1200000 0]
   \<and> isStarted (snd (start (constructor (\<lambda>n. 0))))
   \<and> start (snd (start (constructor (\<lambda>n. 0)))) =
       (Promise_resolve, snd (start (constructor (\<lambda>n. 0))))"
  using start_idempotent [of "constructor (\<lambda>n. 0)"]
  by (simp add: constructor_def start_def makeIDEConnection_eq IDE_CONNECTION_MAX_WAIT_MS_def)

subsection \<open>C8: \<^verbatim>\<open>dispose()\<close> is idempotent\<close>

text \<open>
  C8. \<^verbatim>\<open>dispose()\<close> is idempotent and tears down once. In any state a second call
  changes nothing and adds no effect, and a call on a disposed watcher is the identity;
  after any call the watcher is disposed. In every state a run of the watcher reaches,
  the first call releases the subscription held, if there is one, and then disposes the
  current connection, if there is one, and does nothing else to the collaborators;
  afterwards that subscription is disposed and that connection has ended.
\<close>

theorem dispose_idempotent:
  "dispose (dispose w) = dispose w
   \<and> isDisposed (dispose w)
   \<and> new_effects (dispose w) Call_dispose = []
   \<and> (isDisposed w \<longrightarrow> dispose w = w)
   \<and> (\<not> isDisposed (run clk evs) \<longrightarrow>
        new_effects (run clk evs) Call_dispose =
          (case currentIDEConnectionSubscription (run clk evs) of
             None \<Rightarrow> [] | Some s \<Rightarrow> [Subscription_dispose s])
          @ (case currentIDEConnection (run clk evs) of
               None \<Rightarrow> [] | Some c \<Rightarrow> [Connection_dispose c])
      \<and> (\<forall>s. currentIDEConnectionSubscription (run clk evs) = Some s \<longrightarrow>
             s < length (listeners (dispose (run clk evs)))
           \<and> l_disposed (listeners (dispose (run clk evs)) ! s))
      \<and> (\<forall>c. currentIDEConnection (run clk evs) = Some c \<longrightarrow>
             c < length (connections (dispose (run clk evs)))
           \<and> c_ended (connections (dispose (run clk evs)) ! c)))"
proof -
  have a: "dispose (dispose w) = dispose w"
    by (simp add: dispose_disposed isDisposed_dispose)
  then have b: "new_effects (dispose w) Call_dispose = []"
    by (simp add: new_effects_def)
  let ?v = "run clk evs"
  have i: "watcher_inv ?v" by (rule inv_run)
  have c: "\<not> isDisposed ?v \<Longrightarrow>
        new_effects ?v Call_dispose =
          (case currentIDEConnectionSubscription ?v of
             None \<Rightarrow> [] | Some s \<Rightarrow> [Subscription_dispose s])
          @ (case currentIDEConnection ?v of
               None \<Rightarrow> [] | Some c \<Rightarrow> [Connection_dispose c])"
    using i by (simp add: effects_dispose[OF i]) (simp add: watcher_inv_def)
  have d: "\<not> isDisposed ?v \<Longrightarrow> currentIDEConnectionSubscription ?v = Some s \<Longrightarrow>
             s < length (listeners (dispose ?v)) \<and> l_disposed (listeners (dispose ?v) ! s)" for s
    using i by (simp add: dispose_eq[OF i]) (auto simp: watcher_inv_def split: if_splits)
  have e: "\<not> isDisposed ?v \<Longrightarrow> currentIDEConnection ?v = Some c \<Longrightarrow>
             c < length (connections (dispose ?v)) \<and> c_ended (connections (dispose ?v) ! c)" for c
    using i by (simp add: dispose_eq[OF i]) (auto simp: watcher_inv_def split: if_splits)
  from a b c d e show ?thesis
    by (simp add: isDisposed_dispose dispose_disposed)
qed

theorem dispose_idempotent_witness:
  "\<not> isDisposed (run (\<lambda>n. 0) [Call_start, Process_resolved 0 (Some 7)])
   \<and> currentIDEConnectionSubscription (run (\<lambda>n. 0) [Call_start, Process_resolved 0 (Some 7)]) = Some 0
   \<and> currentIDEConnection (run (\<lambda>n. 0) [Call_start, Process_resolved 0 (Some 7)]) = Some 0
   \<and> new_effects (run (\<lambda>n. 0) [Call_start, Process_resolved 0 (Some 7)]) Call_dispose =
        [Subscription_dispose 0, Connection_dispose 0]
   \<and> l_disposed (listeners (dispose (run (\<lambda>n. 0) [Call_start, Process_resolved 0 (Some 7)])) ! 0)
   \<and> c_ended (connections (dispose (run (\<lambda>n. 0) [Call_start, Process_resolved 0 (Some 7)])) ! 0)
   \<and> isDisposed (dispose (run (\<lambda>n. 0) [Call_start, Process_resolved 0 (Some 7)]))
   \<and> new_effects (dispose (run (\<lambda>n. 0) [Call_start, Process_resolved 0 (Some 7)])) Call_dispose = []
   \<and> dispose (dispose (run (\<lambda>n. 0) [Call_start, Process_resolved 0 (Some 7)])) =
       dispose (run (\<lambda>n. 0) [Call_start, Process_resolved 0 (Some 7)])"
proof -
  have h: "\<not> isDisposed (run (\<lambda>n. 0) [Call_start, Process_resolved 0 (Some 7)])"
    "currentIDEConnectionSubscription (run (\<lambda>n. 0) [Call_start, Process_resolved 0 (Some 7)]) = Some 0"
    "currentIDEConnection (run (\<lambda>n. 0) [Call_start, Process_resolved 0 (Some 7)]) = Some 0"
    by (simp_all add: run_connected)
  from dispose_idempotent [of "run (\<lambda>n. 0) [Call_start, Process_resolved 0 (Some 7)]"
      "\<lambda>n. 0" "[Call_start, Process_resolved 0 (Some 7)]"] h
  show ?thesis by simp
qed

subsection \<open>C9: when the subscription is released\<close>

text \<open>
  C9, as stated, fails. After the first connection has ended and the next process handle
  arrives, the step that replaces the current connection and the held subscription makes
  no call of \<^verbatim>\<open>dispose\<close> on the previous subscription: no release is in the trace and
  listener 0 is not disposed.
\<close>

theorem subscription_not_released_on_replacement:
  "currentIDEConnection
      (run (\<lambda>n. 0) [Call_start, Process_resolved 0 (Some 7), Connection_ends 0]) = Some 0
   \<and> currentIDEConnectionSubscription
      (run (\<lambda>n. 0) [Call_start, Process_resolved 0 (Some 7), Connection_ends 0]) = Some 0
   \<and> currentIDEConnection
      (run (\<lambda>n. 0) [Call_start, Process_resolved 0 (Some 7), Connection_ends 0,
                     Process_resolved 1 (Some 8)]) = Some 1
   \<and> currentIDEConnectionSubscription
      (run (\<lambda>n. 0) [Call_start, Process_resolved 0 (Some 7), Connection_ends 0,
                     Process_resolved 1 (Some 8)]) = Some 1
   \<and> releases (trace
      (run (\<lambda>n. 0) [Call_start, Process_resolved 0 (Some 7), Connection_ends 0,
                     Process_resolved 1 (Some 8)])) = []
   \<and> \<not> l_disposed (listeners
      (run (\<lambda>n. 0) [Call_start, Process_resolved 0 (Some 7), Connection_ends 0,
                     Process_resolved 1 (Some 8)]) ! 0)"
proof -
  have "run (\<lambda>n. 0) [Call_start, Process_resolved 0 (Some 7), Connection_ends 0,
                     Process_resolved 1 (Some 8)] =
        step (run (\<lambda>n. 0) [Call_start, Process_resolved 0 (Some 7), Connection_ends 0])
             (Process_resolved 1 (Some 8))"
    by (simp add: run_def)
  then show ?thesis
    by (simp add: run_crashed resume_process_eq after_loop_Some_eq)
qed

text \<open>
  C9, amended. In every state a run of the watcher reaches: \<^verbatim>\<open>dispose()\<close> on a watcher
  not yet disposed releases the subscription held, if there is one, and releases nothing
  else; no other event releases a subscription. When an event replaces the current
  connection, the connection replaced has already ended, and the subscription held on it
  is overwritten by the new one without being released.
\<close>

theorem subscription_released_by_dispose_only:
  "(\<not> isDisposed (run clk evs) \<and> currentIDEConnectionSubscription (run clk evs) = Some s \<longrightarrow>
       releases (new_effects (run clk evs) Call_dispose) = [s]
     \<and> l_disposed (listeners (step (run clk evs) Call_dispose) ! s))
   \<and> (e \<noteq> Call_dispose \<longrightarrow> releases (new_effects (run clk evs) e) = [])
   \<and> (currentIDEConnection (run clk evs) = Some c \<and>
       currentIDEConnection (step (run clk evs) e) \<noteq> Some c \<longrightarrow>
         c_ended (connections (run clk evs) ! c)
       \<and> currentIDEConnectionSubscription (run clk evs) = Some c
       \<and> currentIDEConnectionSubscription (step (run clk evs) e) =
           Some (length (listeners (run clk evs)))
       \<and> releases (new_effects (run clk evs) e) = [])"
proof -
  let ?w = "run clk evs"
  have i: "watcher_inv ?w" by (rule inv_run)
  have a: "\<not> isDisposed ?w \<Longrightarrow> currentIDEConnectionSubscription ?w = Some s \<Longrightarrow>
       releases (new_effects ?w Call_dispose) = [s]
     \<and> l_disposed (listeners (step ?w Call_dispose) ! s)"
    using i by (simp add: effects_dispose[OF i] dispose_eq[OF i])
               (auto simp: watcher_inv_def split: if_splits)
  have b: "e \<noteq> Call_dispose \<Longrightarrow> releases (new_effects ?w e) = []"
    by (rule releases_step[OF i])
  have c: "currentIDEConnection ?w = Some c \<Longrightarrow> currentIDEConnection (step ?w e) \<noteq> Some c \<Longrightarrow>
         c_ended (connections ?w ! c)
       \<and> currentIDEConnectionSubscription ?w = Some c
       \<and> currentIDEConnectionSubscription (step ?w e) = Some (length (listeners ?w))
       \<and> releases (new_effects ?w e) = []"
  proof -
    assume h: "currentIDEConnection ?w = Some c" "currentIDEConnection (step ?w e) \<noteq> Some c"
    from current_step[OF i, of e] h have "e \<noteq> Call_dispose" by auto
    with replaced_connection_ended[OF i h] b show ?thesis by simp
  qed
  from a b c show ?thesis by blast
qed

theorem subscription_released_by_dispose_only_witness:
  "\<not> isDisposed (run (\<lambda>n. 0) [Call_start, Process_resolved 0 (Some 7)])
   \<and> currentIDEConnectionSubscription
        (run (\<lambda>n. 0) [Call_start, Process_resolved 0 (Some 7)]) = Some 0
   \<and> releases (new_effects
        (run (\<lambda>n. 0) [Call_start, Process_resolved 0 (Some 7)]) Call_dispose) = [0]
   \<and> currentIDEConnection
        (run (\<lambda>n. 0) [Call_start, Process_resolved 0 (Some 7), Connection_ends 0]) = Some 0
   \<and> currentIDEConnection
        (step (run (\<lambda>n. 0) [Call_start, Process_resolved 0 (Some 7), Connection_ends 0])
              (Process_resolved 1 (Some 8))) = Some 1
   \<and> c_ended (connections
        (run (\<lambda>n. 0) [Call_start, Process_resolved 0 (Some 7), Connection_ends 0]) ! 0)
   \<and> releases (new_effects
        (run (\<lambda>n. 0) [Call_start, Process_resolved 0 (Some 7), Connection_ends 0])
        (Process_resolved 1 (Some 8))) = []"
proof -
  have h: "\<not> isDisposed (run (\<lambda>n. 0) [Call_start, Process_resolved 0 (Some 7)])"
    "currentIDEConnectionSubscription
        (run (\<lambda>n. 0) [Call_start, Process_resolved 0 (Some 7)]) = Some 0"
    by (simp_all add: run_connected)
  have g: "currentIDEConnection
        (run (\<lambda>n. 0) [Call_start, Process_resolved 0 (Some 7), Connection_ends 0]) = Some 0"
    "currentIDEConnection
        (step (run (\<lambda>n. 0) [Call_start, Process_resolved 0 (Some 7), Connection_ends 0])
              (Process_resolved 1 (Some 8))) = Some 1"
    by (simp_all add: run_crashed resume_process_eq after_loop_Some_eq)
  from subscription_released_by_dispose_only
         [of "\<lambda>n. 0" "[Call_start, Process_resolved 0 (Some 7)]" 0 Call_dispose 0] h
  have a: "releases (new_effects
        (run (\<lambda>n. 0) [Call_start, Process_resolved 0 (Some 7)]) Call_dispose) = [0]"
    by simp
  from subscription_released_by_dispose_only
         [of "\<lambda>n. 0" "[Call_start, Process_resolved 0 (Some 7), Connection_ends 0]" 0
             "Process_resolved 1 (Some 8)" 0] g
  have b: "c_ended (connections
        (run (\<lambda>n. 0) [Call_start, Process_resolved 0 (Some 7), Connection_ends 0]) ! 0)
     \<and> releases (new_effects
        (run (\<lambda>n. 0) [Call_start, Process_resolved 0 (Some 7), Connection_ends 0])
        (Process_resolved 1 (Some 8))) = []"
    by simp
  from h g a b show ?thesis by simp
qed

subsection \<open>C10: the current connection is never cleared\<close>

text \<open>
  C10. In every state a run of the watcher reaches, a set \<^verbatim>\<open>_currentIDEConnection\<close> stays
  set under every event: it keeps its value, or the event is the arrival of a process
  handle and the field takes the connection created by that very step, which is later
  than the one it held. In particular the end of a connection leaves the field as it is.
  So when the recorded connection has already ended and the watcher is not yet disposed,
  \<^verbatim>\<open>dispose()\<close> calls the dispose method of that ended connection.
\<close>

theorem currentIDEConnection_never_cleared:
  "(currentIDEConnection (run clk evs) = Some c \<longrightarrow>
       currentIDEConnection (step (run clk evs) e) = Some c
     \<or> (\<exists>k p. e = Process_resolved k (Some p))
       \<and> currentIDEConnection (step (run clk evs) e) = Some (length (connections (run clk evs)))
       \<and> c < length (connections (run clk evs)))
   \<and> currentIDEConnection (step (run clk evs) (Connection_ends c')) =
       currentIDEConnection (run clk evs)
   \<and> (currentIDEConnection (run clk evs) = Some c \<and> c_ended (connections (run clk evs) ! c)
        \<and> \<not> isDisposed (run clk evs) \<longrightarrow>
       Connection_dispose c \<in> set (new_effects (run clk evs) Call_dispose))"
proof -
  let ?w = "run clk evs"
  have i: "watcher_inv ?w" by (rule inv_run)
  have lt: "currentIDEConnection ?w = Some c \<Longrightarrow> c < length (connections ?w)"
    using i by (auto simp: watcher_inv_def split: if_splits)
  have a: "currentIDEConnection ?w = Some c \<Longrightarrow>
       currentIDEConnection (step ?w e) = Some c
     \<or> (\<exists>k p. e = Process_resolved k (Some p))
       \<and> currentIDEConnection (step ?w e) = Some (length (connections ?w))
       \<and> c < length (connections ?w)"
    using current_step[OF i, of e] lt by auto
  have b: "currentIDEConnection (step ?w (Connection_ends c')) = currentIDEConnection ?w"
    using current_step[OF i, of "Connection_ends c'"] by simp
  have d: "currentIDEConnection ?w = Some c \<Longrightarrow> \<not> isDisposed ?w \<Longrightarrow>
       Connection_dispose c \<in> set (new_effects ?w Call_dispose)"
    using i by (simp add: effects_dispose[OF i]) (auto simp: watcher_inv_def split: if_splits)
  from a b d show ?thesis by blast
qed

theorem currentIDEConnection_never_cleared_witness:
  "currentIDEConnection (run (\<lambda>n. 0) [Call_start, Process_resolved 0 (Some 7)]) = Some 0
   \<and> currentIDEConnection
        (run (\<lambda>n. 0) [Call_start, Process_resolved 0 (Some 7), Connection_ends 0]) = Some 0
   \<and> c_ended (connections
        (run (\<lambda>n. 0) [Call_start, Process_resolved 0 (Some 7), Connection_ends 0]) ! 0)
   \<and> \<not> isDisposed (run (\<lambda>n. 0) [Call_start, Process_resolved 0 (Some 7), Connection_ends 0])
   \<and> Connection_dispose 0 \<in> set (new_effects
        (run (\<lambda>n. 0) [Call_start, Process_resolved 0 (Some 7), Connection_ends 0]) Call_dispose)"
proof -
  have r: "run (\<lambda>n. 0) [Call_start, Process_resolved 0 (Some 7), Connection_ends 0] =
        step (run (\<lambda>n. 0) [Call_start, Process_resolved 0 (Some 7)]) (Connection_ends 0)"
    by (simp add: run_def)
  have h: "currentIDEConnection (run (\<lambda>n. 0) [Call_start, Process_resolved 0 (Some 7)]) = Some 0"
    by (simp add: run_connected)
  have g: "c_ended (connections
        (run (\<lambda>n. 0) [Call_start, Process_resolved 0 (Some 7), Connection_ends 0]) ! 0)"
    "\<not> isDisposed (run (\<lambda>n. 0) [Call_start, Process_resolved 0 (Some 7), Connection_ends 0])"
    by (simp_all add: run_crashed)
  from currentIDEConnection_never_cleared
         [of "\<lambda>n. 0" "[Call_start, Process_resolved 0 (Some 7)]" 0 "Connection_ends 0" 0]
       h r
  have k: "currentIDEConnection
        (run (\<lambda>n. 0) [Call_start, Process_resolved 0 (Some 7), Connection_ends 0]) = Some 0"
    by simp
  from currentIDEConnection_never_cleared
         [of "\<lambda>n. 0" "[Call_start, Process_resolved 0 (Some 7), Connection_ends 0]" 0
             Call_dispose 0]
       k g h
  show ?thesis by simp
qed

end
